theory Spec2Isabelle
  imports Main "HOL-Library.AList"
begin

section \<open>Documents\<close>

text \<open>
  A Slate node is read by the rules through four fields: \<open>key\<close>, \<open>type\<close>, \<open>data\<close> and
  \<open>nodes\<close>. A \<open>Block\<close> (an \<open>Inline\<close> has the same shape) has all four; a \<open>Text\<close> has a
  key and its characters only, so its \<open>type\<close> reads as \<open>undefined\<close> (\<open>None\<close> here).

  Keys are compared for equality only. Slate's generator hands out the decimal rendering
  of a counter, so a key is modelled by the number itself.

  The only entry of \<open>data\<close> the rules read is \<open>'align'\<close>, an array of alignment tags; the
  Immutable \<open>Map\<close> is an association list read with \<open>map_of\<close>.
\<close>

type_synonym key = nat

type_synonym data = "(string \<times> string list) list"

datatype node =
    Block key string data "node list"
  | Text key string

fun key :: "node \<Rightarrow> key" where
  "key (Block k ty d ns) = k"
| "key (Text k s) = k"

fun type :: "node \<Rightarrow> string option" where
  "type (Block k ty d ns) = Some ty"
| "type (Text k s) = None"

text \<open>
  A \<open>Text\<close> has no \<open>nodes\<close> and no \<open>data\<close> field. The source reads them either from the node
  a rule was matched on (the validate functions below have a \<open>Text\<close> branch of their own)
  or from a child whose \<open>type\<close> has just been found equal to a configured string, which is
  never a \<open>Text\<close>; the value given for \<open>Text\<close> in the next two functions decides no result.
\<close>

fun nodes :: "node \<Rightarrow> node list" where
  "nodes (Block k ty d ns) = ns"
| "nodes (Text k s) = []"

fun data :: "node \<Rightarrow> data" where
  "data (Block k ty d ns) = d"
| "data (Text k s) = []"

record opts =
  typeTable :: string
  typeRow :: string
  typeCell :: string

text \<open>Reading a property of \<open>undefined\<close> throws a \<open>TypeError\<close>; it is the only failure
  the rules can meet.\<close>

datatype error = TypeError

section \<open>The change under construction\<close>

text \<open>
  Slate's \<open>Change\<close> is not part of the repository. The rules use three of its methods, each
  addressing a node by key, applying the edit to the change's document at once and
  appending the operation to the change's log. The edits below act on every node that
  has the key; in a document, where keys are distinct, that is one node. The last
  argument of an operation is the \<open>normalize\<close> option (\<open>True\<close> when the call leaves it
  out); re-normalisation by the host is outside the model.

  \<open>nextKey\<close> is Slate's key counter. It is global in the source; it is carried with the
  change because creating a node advances it.
\<close>

datatype operation =
    RemoveNodeByKey key bool
  | InsertNodeByKey key nat node bool
  | SetNodeByKey key data bool

record change =
  document :: node
  operations :: "operation list"
  nextKey :: nat

fun remove_key :: "key \<Rightarrow> node \<Rightarrow> node" where
  "remove_key k (Block kk ty d ns) =
     Block kk ty d (map (remove_key k) (filter (\<lambda>n. key n \<noteq> k) ns))"
| "remove_key k (Text kk s) = Text kk s"

fun insert_key :: "key \<Rightarrow> nat \<Rightarrow> node \<Rightarrow> node \<Rightarrow> node" where
  "insert_key pk i c (Block kk ty d ns) =
     (if kk = pk then Block kk ty d (take i ns @ c # drop i ns)
      else Block kk ty d (map (insert_key pk i c) ns))"
| "insert_key pk i c (Text kk s) = Text kk s"

fun set_key :: "key \<Rightarrow> data \<Rightarrow> node \<Rightarrow> node" where
  "set_key k d' (Block kk ty d ns) =
     (if kk = k then Block kk ty d' ns
      else Block kk ty d (map (set_key k d') ns))"
| "set_key k d' (Text kk s) = Text kk s"

definition removeNodeByKey :: "key \<Rightarrow> bool \<Rightarrow> change \<Rightarrow> change" where
  "removeNodeByKey k nrm ch =
     ch\<lparr>document := remove_key k (document ch),
        operations := operations ch @ [RemoveNodeByKey k nrm]\<rparr>"

definition insertNodeByKey :: "key \<Rightarrow> nat \<Rightarrow> node \<Rightarrow> bool \<Rightarrow> change \<Rightarrow> change" where
  "insertNodeByKey pk i c nrm ch =
     ch\<lparr>document := insert_key pk i c (document ch),
        operations := operations ch @ [InsertNodeByKey pk i c nrm]\<rparr>"

definition setNodeByKey :: "key \<Rightarrow> data \<Rightarrow> bool \<Rightarrow> change \<Rightarrow> change" where
  "setNodeByKey k d nrm ch =
     ch\<lparr>document := set_key k d (document ch),
        operations := operations ch @ [SetNodeByKey k d nrm]\<rparr>"

section \<open>Empty nodes\<close>

text \<open>
  \<open>Block.create\<close> evaluates its argument first: the text takes the next key, then the
  cell; for a row the cell is built first, then the row. The functions return the node and
  the advanced counter. The older file builds the same two nodes with
  \<open>Slate.Raw.deserializeNode\<close>.
\<close>

definition makeEmptyCell :: "opts \<Rightarrow> nat \<Rightarrow> node \<times> nat" where
  "makeEmptyCell opts g = (Block (Suc g) (typeCell opts) [] [Text g ''''], g + 2)"

definition makeEmptyRow :: "opts \<Rightarrow> nat \<Rightarrow> node \<times> nat" where
  "makeEmptyRow opts g =
     (let (cell, g1) = makeEmptyCell opts g
      in (Block g1 (typeRow opts) [] [cell], Suc g1))"

text \<open>
  Modelled from the spec: \<open>createAlign\<close> lives in \<open>lib/createAlign.js\<close>, which is not among
  the sources. The specification has it extend or truncate the alignment sequence to
  exactly \<open>columns\<close> entries, keeping the entries at matching indices and filling new
  columns with the default tag.
\<close>

definition createAlign :: "nat \<Rightarrow> string list \<Rightarrow> string list" where
  "createAlign cols al = take cols al @ replicate (cols - length al) ''none''"

section \<open>Rules and the pipeline of \<open>validateNode.js\<close>\<close>

record 'd rule =
  match :: "node \<Rightarrow> bool"
  validate :: "node \<Rightarrow> error + 'd option"
  normalize_rule :: "change \<Rightarrow> node \<Rightarrow> 'd \<Rightarrow> change"

type_synonym normalizer = "change \<Rightarrow> change"

type_synonym validator = "node \<Rightarrow> error + normalizer option"

definition toValidateNode :: "'d rule \<Rightarrow> validator" where
  "toValidateNode rule node =
     (if \<not> match rule node then Inr None
      else case validate rule node of
             Inl e \<Rightarrow> Inl e
           | Inr None \<Rightarrow> Inr None
           | Inr (Some validationResult) \<Rightarrow>
               Inr (Some (\<lambda>change. normalize_rule rule change node validationResult)))"

text \<open>
  \<open>validators.find\<close> calls the validators in order, stores each result in \<open>changer\<close> and
  stops at the first one that is a function; \<open>changer\<close> is what the last call returned.
  A validator that throws ends the search with its error.
\<close>

fun validateTableNode :: "validator list \<Rightarrow> validator" where
  "validateTableNode [] node = Inr None"
| "validateTableNode (v # vs) node =
     (case v node of
        Inl e \<Rightarrow> Inl e
      | Inr (Some changer) \<Rightarrow> Inr (Some changer)
      | Inr None \<Rightarrow> validateTableNode vs node)"

section \<open>Tables contain only rows\<close>

definition isRow :: "opts \<Rightarrow> node \<Rightarrow> bool" where
  "isRow opts node = (type node = Some (typeRow opts))"

definition isCell :: "opts \<Rightarrow> node \<Rightarrow> bool" where
  "isCell opts node = (type node = Some (typeCell opts))"

definition isTable :: "opts \<Rightarrow> node \<Rightarrow> bool" where
  "isTable opts node = (type node = Some (typeTable opts))"

text \<open>The diagnosis \<open>{invalids, add}\<close> of this rule; the field names carry a prefix
  because the entries of the next rule have fields of the same names.\<close>

record table_diagnosis =
  table_invalids :: "node list"
  table_add :: "node list"

text \<open>
  The rule is written twice, in \<open>validateNode.js\<close> (where it is left out of the rule list)
  and in \<open>makeSchema.js\<close>; the two \<open>validate\<close> functions are the same text, and the two
  \<open>normalize\<close> functions differ in \<open>forEach\<close> against \<open>reduce\<close> only. \<open>validate\<close> calls
  \<open>makeEmptyRow\<close>, so it takes the key counter and returns it.
\<close>

fun tablesContainOnlyRows_validate ::
    "opts \<Rightarrow> nat \<Rightarrow> node \<Rightarrow> (error + table_diagnosis option) \<times> nat" where
  "tablesContainOnlyRows_validate opts g (Block k ty d ns) =
     (let invs = filter (\<lambda>n. \<not> isRow opts n) ns;
          (adds, g') = (if length invs = length ns
                        then (let (r, g1) = makeEmptyRow opts g in ([r], g1))
                        else ([], g))
      in if invs = [] \<and> length adds = 0 then (Inr None, g')
         else (Inr (Some \<lparr>table_invalids = invs, table_add = adds\<rparr>), g'))"
| "tablesContainOnlyRows_validate opts g (Text k s) = (Inl TypeError, g)"

definition tablesContainOnlyRows_normalize ::
    "opts \<Rightarrow> change \<Rightarrow> node \<Rightarrow> table_diagnosis \<Rightarrow> change" where
  "tablesContainOnlyRows_normalize opts change node diag =
     fold (\<lambda>child ch. insertNodeByKey (key node) 0 child True ch) (table_add diag)
       (fold (\<lambda>child ch. removeNodeByKey (key child) False ch) (table_invalids diag) change)"

section \<open>Rows contain the required columns\<close>

definition countCells :: "opts \<Rightarrow> node \<Rightarrow> nat" where
  "countCells opts row = length (filter (isCell opts) (nodes row))"

record row_diagnosis =
  row :: node
  invalids :: "node list"
  add :: int

text \<open>The \<open>reduce\<close> that computes \<open>columns\<close>, and the function mapped over the rows; both
  files have them word for word.\<close>

definition tableColumns :: "opts \<Rightarrow> node list \<Rightarrow> nat" where
  "tableColumns opts rows = foldl (\<lambda>count r. max count (countCells opts r)) 1 rows"

definition diagnoseRow :: "opts \<Rightarrow> nat \<Rightarrow> node \<Rightarrow> row_diagnosis option" where
  "diagnoseRow opts cols r =
     (let cells = countCells opts r;
          invs = filter (\<lambda>n. \<not> isCell opts n) (nodes r)
      in if invs = [] \<and> cells = cols then None
         else Some \<lparr>row = r, invalids = invs, add = int cols - int cells\<rparr>)"

definition invalidRows :: "opts \<Rightarrow> nat \<Rightarrow> node list \<Rightarrow> row_diagnosis list" where
  "invalidRows opts cols rows =
     map the (filter (\<lambda>x. x \<noteq> None) (map (diagnoseRow opts cols) rows))"

text \<open>\<open>validate\<close> of \<open>validateNode.js\<close>.\<close>

fun rowsContainRequiredColumns_validate ::
    "opts \<Rightarrow> node \<Rightarrow> error + row_diagnosis list option" where
  "rowsContainRequiredColumns_validate opts (Block k ty d ns) =
     (let rows = filter (isRow opts) ns;
          cols = tableColumns opts rows;
          bad = invalidRows opts cols rows
      in Inr (if length bad > 0 then Some bad else None))"
| "rowsContainRequiredColumns_validate opts (Text k s) = Inl TypeError"

text \<open>\<open>validate\<close> of \<open>makeSchema.js\<close>: it returns early when every row has \<open>columns\<close>
  cells.\<close>

fun makeSchema_rowsContainRequiredColumns_validate ::
    "opts \<Rightarrow> node \<Rightarrow> error + row_diagnosis list option" where
  "makeSchema_rowsContainRequiredColumns_validate opts (Block k ty d ns) =
     (let rows = filter (isRow opts) ns;
          cols = tableColumns opts rows;
          valid = list_all (\<lambda>r. cols = countCells opts r) rows
      in if valid then Inr None
         else Inr (Some (invalidRows opts cols rows)))"
| "makeSchema_rowsContainRequiredColumns_validate opts (Text k s) = Inl TypeError"

text \<open>
  \<open>normalize\<close>, the same in both files. Immutable's \<open>Range(0, add)\<close> counts down when
  \<open>add\<close> is negative, so it has \<open>|add|\<close> elements.
\<close>

definition insertEmptyCell :: "opts \<Rightarrow> key \<Rightarrow> change \<Rightarrow> change" where
  "insertEmptyCell opts rk ch =
     (let (cell, g) = makeEmptyCell opts (nextKey ch)
      in insertNodeByKey rk 0 cell False (ch\<lparr>nextKey := g\<rparr>))"

definition normalizeRow :: "opts \<Rightarrow> row_diagnosis \<Rightarrow> change \<Rightarrow> change" where
  "normalizeRow opts e ch =
     fold (\<lambda>_ c. insertEmptyCell opts (key (row e)) c) [0..<nat \<bar>add e\<bar>]
       (fold (\<lambda>child c. removeNodeByKey (key child) False c) (invalids e) ch)"

definition rowsContainRequiredColumns_normalize ::
    "opts \<Rightarrow> change \<Rightarrow> node \<Rightarrow> row_diagnosis list \<Rightarrow> change" where
  "rowsContainRequiredColumns_normalize opts change node rows =
     fold (normalizeRow opts) rows change"

definition rowsContainRequiredColumns :: "opts \<Rightarrow> row_diagnosis list rule" where
  "rowsContainRequiredColumns opts =
     \<lparr>match = isTable opts,
      validate = rowsContainRequiredColumns_validate opts,
      normalize_rule = rowsContainRequiredColumns_normalize opts\<rparr>"

section \<open>Tables carry their alignment\<close>

record align_diagnosis =
  align :: "string list"
  columns :: nat

text \<open>\<open>table.nodes.first()\<close> is \<open>undefined\<close> on an empty list, and reading its \<open>type\<close>
  throws.\<close>

fun tableContainAlignData_validate ::
    "opts \<Rightarrow> node \<Rightarrow> error + align_diagnosis option" where
  "tableContainAlignData_validate opts (Block k ty d ns) =
     (let al = (case map_of d ''align'' of None \<Rightarrow> [] | Some a \<Rightarrow> a)
      in case ns of
           [] \<Rightarrow> Inl TypeError
         | r # _ \<Rightarrow>
             if type r \<noteq> Some (typeRow opts) then Inr None
             else (let cols = length (nodes r)
                   in if length al = cols then Inr None
                      else Inr (Some \<lparr>align = al, columns = cols\<rparr>)))"
| "tableContainAlignData_validate opts (Text k s) = Inl TypeError"

definition tableContainAlignData_normalize ::
    "opts \<Rightarrow> change \<Rightarrow> node \<Rightarrow> align_diagnosis \<Rightarrow> change" where
  "tableContainAlignData_normalize opts change node diag =
     setNodeByKey (key node)
       (AList.update ''align'' (createAlign (columns diag) (align diag)) (data node))
       False change"

definition tableContainAlignData :: "opts \<Rightarrow> align_diagnosis rule" where
  "tableContainAlignData opts =
     \<lparr>match = isTable opts,
      validate = tableContainAlignData_validate opts,
      normalize_rule = tableContainAlignData_normalize opts\<rparr>"

section \<open>The validator\<close>

definition validateNode :: "opts \<Rightarrow> validator" where
  "validateNode opts =
     validateTableNode
       [toValidateNode (rowsContainRequiredColumns opts),
        toValidateNode (tableContainAlignData opts)]"

section \<open>Keys of a subtree\<close>

text \<open>
  The keys of a node and of everything below it, in document order. Slate keeps the keys
  of a document distinct and its generator never hands out a key twice; the repair
  theorems assume both of the document they are about.
\<close>

fun keys :: "node \<Rightarrow> key list" where
  "keys (Block k ty d ns) = k # concat (map keys ns)"
| "keys (Text k s) = [k]"

text \<open>Removing every node whose key is in a set: what a run of \<open>removeNodeByKey\<close> calls
  amounts to (\<open>fold_remove_key\<close>).\<close>

fun remove_all :: "key set \<Rightarrow> node \<Rightarrow> node" where
  "remove_all K (Block kk ty d ns) =
     Block kk ty d (map (remove_all K) (filter (\<lambda>n. key n \<notin> K) ns))"
| "remove_all K (Text kk s) = Text kk s"

section \<open>What a repaired row looks like\<close>

text \<open>
  An empty cell as \<open>makeEmptyCell\<close> builds it, and the relation between a child \<open>c\<close> of the
  table and the child \<open>c'\<close> at the same place after the column-count repair: a child that
  is not a row is untouched; a row keeps its key and type, has \<open>cols\<close> cells, its old cells
  are the last of them in their old order, and the cells before them are empty cells.
\<close>

fun isEmptyCell :: "opts \<Rightarrow> node \<Rightarrow> bool" where
  "isEmptyCell opts (Block k ty d [Text k' s]) = (ty = typeCell opts \<and> d = [] \<and> s = [])"
| "isEmptyCell opts n = False"

definition rowRepaired :: "opts \<Rightarrow> nat \<Rightarrow> node \<Rightarrow> node \<Rightarrow> bool" where
  "rowRepaired opts cols c c' =
     (if isRow opts c
      then isRow opts c' \<and> key c' = key c \<and>
           (let a = filter (isCell opts) (nodes c');
                b = filter (isCell opts) (nodes c)
            in length a = cols \<and>
               drop (length a - length b) a = b \<and>
               list_all (isEmptyCell opts) (take (length a - length b) a))
      else c' = c)"

section \<open>Removals before insertions\<close>

text \<open>
  The ordering the specification asks of a repair, read on the operations log: after an
  insertion into the node with key \<open>p\<close>, the log removes no child of that node.
  \<open>childKeys t p\<close> are the keys of the children of the nodes of \<open>t\<close> that have key \<open>p\<close>
  (in a document there is one such node), \<open>removedKeys\<close> and \<open>insertedKeys\<close> read the keys
  off the removals and the parents off the insertions of a log.
\<close>

fun childKeys :: "node \<Rightarrow> key \<Rightarrow> key list" where
  "childKeys (Block k ty d ns) p =
     (if k = p then map key ns else []) @ concat (map (\<lambda>n. childKeys n p) ns)"
| "childKeys (Text k s) p = []"

fun removedKeys :: "operation list \<Rightarrow> key list" where
  "removedKeys [] = []"
| "removedKeys (RemoveNodeByKey q n # ops) = q # removedKeys ops"
| "removedKeys (x # ops) = removedKeys ops"

fun insertedKeys :: "operation list \<Rightarrow> key list" where
  "insertedKeys [] = []"
| "insertedKeys (InsertNodeByKey p i c n # ops) = p # insertedKeys ops"
| "insertedKeys (x # ops) = insertedKeys ops"

fun removalsBeforeInsertions :: "node \<Rightarrow> operation list \<Rightarrow> bool" where
  "removalsBeforeInsertions t [] = True"
| "removalsBeforeInsertions t (InsertNodeByKey p i c n # ops) =
     (list_all (\<lambda>q. q \<notin> set (childKeys t p)) (removedKeys ops) \<and>
      removalsBeforeInsertions t ops)"
| "removalsBeforeInsertions t (x # ops) = removalsBeforeInsertions t ops"

section \<open>A table inside a document\<close>

text \<open>
  The nodes of a document, the document with the node of a given key replaced, and the
  keys of a document outside the node of a given key. \<open>sim\<close> relates a change on the whole
  document to the same change run on the table alone: the documents differ by that
  replacement, the logs and the key counters agree.
\<close>

fun subtrees :: "node \<Rightarrow> node list" where
  "subtrees (Block k ty d ns) = Block k ty d ns # concat (map subtrees ns)"
| "subtrees (Text k s) = [Text k s]"

fun replace_key :: "key \<Rightarrow> node \<Rightarrow> node \<Rightarrow> node" where
  "replace_key tk t (Block k ty d ns) =
     (if k = tk then t else Block k ty d (map (replace_key tk t) ns))"
| "replace_key tk t (Text k s) = (if k = tk then t else Text k s)"

fun outer_keys :: "key \<Rightarrow> node \<Rightarrow> key list" where
  "outer_keys tk (Block k ty d ns) =
     (if k = tk then [] else k # concat (map (outer_keys tk) ns))"
| "outer_keys tk (Text k s) = (if k = tk then [] else [k])"

definition sim :: "key \<Rightarrow> node \<Rightarrow> change \<Rightarrow> change \<Rightarrow> bool" where
  "sim tk doc c1 c2 \<longleftrightarrow>
     document c1 = replace_key tk (document c2) doc \<and> key (document c2) = tk \<and>
     nextKey c1 = nextKey c2 \<and> operations c1 = operations c2"

section \<open>The invariants, as the specification words them\<close>

text \<open>
  Every child of the table is a row; every row has exactly \<open>columns\<close> children, all of
  them cells, where \<open>columns\<close> is the largest cell count of a row and at least 1; the
  table's \<open>align\<close> entry has \<open>columns\<close> tags.
\<close>

definition satisfiesInvariants :: "opts \<Rightarrow> node \<Rightarrow> bool" where
  "satisfiesInvariants opts table =
     (let cols = Max (set (1 # map (countCells opts) (nodes table)))
      in list_all (isRow opts) (nodes table) \<and>
         list_all (\<lambda>r. length (nodes r) = cols \<and> list_all (isCell opts) (nodes r)) (nodes table) \<and>
         (case map_of (data table) ''align'' of
            None \<Rightarrow> False
          | Some al \<Rightarrow> length al = cols))"

section \<open>Example documents\<close>

definition opts0 :: opts where
  "opts0 = \<lparr>typeTable = ''table'', typeRow = ''table_row'', typeCell = ''table_cell''\<rparr>"

definition cell0 :: "key \<Rightarrow> node" where
  "cell0 k = Block k ''table_cell'' [] [Text (Suc k) '''']"

definition paragraph0 :: "key \<Rightarrow> node" where
  "paragraph0 k = Block k ''paragraph'' [] [Text (Suc k) ''x'']"

definition table231 :: node where
  "table231 = Block 0 ''table'' []
     [Block 1 ''table_row'' [] [cell0 2, cell0 4],
      Block 6 ''table_row'' [] [cell0 7, cell0 9, cell0 11],
      Block 13 ''table_row'' [] [cell0 14]]"

definition diag231 :: "row_diagnosis list" where
  "diag231 =
     [\<lparr>row = Block 1 ''table_row'' [] [cell0 2, cell0 4], invalids = [], add = 1\<rparr>,
      \<lparr>row = Block 13 ''table_row'' [] [cell0 14], invalids = [], add = 2\<rparr>]"

definition tableLeft :: node where
  "tableLeft = Block 0 ''table'' [(''align'', [''left''])]
     [Block 1 ''table_row'' [] [cell0 2, cell0 4, cell0 6]]"

definition tableExtra :: node where
  "tableExtra = Block 0 ''table'' []
     [Block 1 ''table_row'' [] [cell0 2, paragraph0 4]]"

definition tableNoRows :: node where
  "tableNoRows = Block 0 ''table'' [] [paragraph0 1, paragraph0 3]"

definition tableEmpty :: node where
  "tableEmpty = Block 0 ''table'' [(''align'', [''none''])] []"

definition change0 :: "node \<Rightarrow> nat \<Rightarrow> change" where
  "change0 n g = \<lparr>document = n, operations = [], nextKey = g\<rparr>"

definition doc231 :: node where
  "doc231 = Block 100 ''document'' [] [paragraph0 101, table231]"

definition docNoRows :: node where
  "docNoRows = Block 100 ''document'' [] [paragraph0 101, tableNoRows]"

definition emptyRow103 :: node where
  "emptyRow103 = Block 105 ''table_row'' [] [Block 104 ''table_cell'' [] [Text 103 '''']]"

definition diagNoRows103 :: table_diagnosis where
  "diagNoRows103 =
     \<lparr>table_invalids = [paragraph0 1, paragraph0 3], table_add = [emptyRow103]\<rparr>"

definition tableMixed :: node where
  "tableMixed = Block 0 ''table'' []
     [Block 1 ''table_row'' [] [cell0 2, paragraph0 4],
      Block 6 ''table_row'' [] [cell0 7, cell0 9]]"

definition diagMixed :: "row_diagnosis list" where
  "diagMixed =
     [\<lparr>row = Block 1 ''table_row'' [] [cell0 2, paragraph0 4],
       invalids = [paragraph0 4], add = 1\<rparr>]"

section \<open>Counting columns\<close>

lemma tableColumns_ge_one: "1 \<le> tableColumns opts rows"
proof -
  have "a \<le> foldl (\<lambda>count r. max count (countCells opts r)) a rows" for a
    by (induction rows arbitrary: a) (auto intro: order_trans[OF max.cobounded1])
  then show ?thesis unfolding tableColumns_def .
qed

lemma foldl_max_ge: "a \<le> foldl (\<lambda>count r. max count (f r)) (a::nat) rows"
  by (induction rows arbitrary: a) (auto intro: order_trans[OF max.cobounded1])

lemma foldl_max_mem:
  "r \<in> set rows \<Longrightarrow> f r \<le> foldl (\<lambda>count r. max count (f r)) (a::nat) rows"
proof (induction rows arbitrary: a)
  case Nil
  then show ?case by simp
next
  case (Cons x xs)
  show ?case
  proof (cases "r = x")
    case True
    have "f x \<le> max a (f x)" by simp
    also have "\<dots> \<le> foldl (\<lambda>count r. max count (f r)) (max a (f x)) xs"
      by (rule foldl_max_ge)
    finally show ?thesis using True by simp
  next
    case False
    with Cons show ?thesis by simp
  qed
qed

lemma countCells_le_tableColumns:
  "r \<in> set rows \<Longrightarrow> countCells opts r \<le> tableColumns opts rows"
  unfolding tableColumns_def by (rule foldl_max_mem)

lemma tableColumns_Max:
  "tableColumns opts rows = Max (insert 1 (countCells opts ` set rows))"
proof -
  have "foldl (\<lambda>count r. max count (f r)) (a::nat) rs = Max (insert a (f ` set rs))" for f a rs
  proof (induction rs arbitrary: a)
    case Nil
    then show ?case by simp
  next
    case (Cons x xs)
    have "Max (insert (max a (f x)) (f ` set xs)) = Max (insert a (insert (f x) (f ` set xs)))"
      by (cases "f ` set xs = {}") (auto simp: max.assoc)
    with Cons show ?case by simp
  qed
  then show ?thesis unfolding tableColumns_def .
qed

lemma invalidRows_mem:
  "e \<in> set (invalidRows opts cols rows) \<longleftrightarrow> (\<exists>r\<in>set rows. diagnoseRow opts cols r = Some e)"
  unfolding invalidRows_def by force

lemma invalidRows_Nil:
  "invalidRows opts cols rows = [] \<longleftrightarrow> (\<forall>r\<in>set rows. diagnoseRow opts cols r = None)"
  unfolding invalidRows_def by (auto simp: filter_empty_conv)

lemma diagnoseRow_None:
  "diagnoseRow opts cols r = None \<longleftrightarrow>
     filter (\<lambda>n. \<not> isCell opts n) (nodes r) = [] \<and> countCells opts r = cols"
  unfolding diagnoseRow_def by (simp add: Let_def)

lemma diagnoseRow_Some:
  "diagnoseRow opts cols r = Some e \<Longrightarrow>
     row e = r \<and> invalids e = filter (\<lambda>n. \<not> isCell opts n) (nodes r) \<and>
     add e = int cols - int (countCells opts r)"
  unfolding diagnoseRow_def by (auto simp: Let_def split: if_splits)

lemma validate_null_iff:
  "rowsContainRequiredColumns_validate opts (Block k ty d ns) = Inr None \<longleftrightarrow>
     (\<forall>r\<in>set (filter (isRow opts) ns).
        filter (\<lambda>n. \<not> isCell opts n) (nodes r) = [] \<and>
        countCells opts r = tableColumns opts (filter (isRow opts) ns))"
  by (simp add: Let_def invalidRows_Nil diagnoseRow_None del: set_filter)

lemma makeSchema_validate_null_iff:
  "makeSchema_rowsContainRequiredColumns_validate opts (Block k ty d ns) = Inr None \<longleftrightarrow>
     (\<forall>r\<in>set (filter (isRow opts) ns).
        countCells opts r = tableColumns opts (filter (isRow opts) ns))"
  by (auto simp: Let_def list_all_iff)

text \<open>
  C9. In every entry \<open>{row, invalids, add}\<close> of the diagnosis of the column-count rule, in
  either file, \<open>add = columns - cells\<close> is not negative: \<open>columns\<close> is the maximum of 1
  and the cell counts of all rows, so it is at least the cell count of the entry's row.
\<close>

theorem add_nonneg:
  assumes "v = rowsContainRequiredColumns_validate \<or>
           v = makeSchema_rowsContainRequiredColumns_validate"
    and "v opts table = Inr (Some diag)"
    and "e \<in> set diag"
  shows "0 \<le> add e \<and>
         add e = int (tableColumns opts (filter (isRow opts) (nodes table))) -
                 int (countCells opts (row e))"
proof -
  obtain k ty d ns where t: "table = Block k ty d ns"
    using assms(1,2) by (cases table) auto
  let ?rows = "filter (isRow opts) ns"
  have "diag = invalidRows opts (tableColumns opts ?rows) ?rows"
    using assms(1,2) unfolding t by (auto simp: Let_def split: if_splits)
  then obtain r where r: "r \<in> set ?rows"
      and e: "diagnoseRow opts (tableColumns opts ?rows) r = Some e"
    using assms(3) by (auto simp: invalidRows_mem simp del: set_filter)
  from diagnoseRow_Some[OF e] countCells_le_tableColumns[OF r, of opts]
  show ?thesis by (simp add: t)
qed

theorem add_nonneg_witness:
  "rowsContainRequiredColumns_validate opts0 table231 = Inr (Some diag231) \<and>
   makeSchema_rowsContainRequiredColumns_validate opts0 table231 = Inr (Some diag231) \<and>
   0 \<le> add (diag231 ! 1) \<and> add (diag231 ! 1) = 2"
proof -
  have h1: "rowsContainRequiredColumns_validate opts0 table231 = Inr (Some diag231)"
    by (simp add: opts0_def cell0_def table231_def diag231_def Let_def isRow_def isCell_def tableColumns_def countCells_def
        invalidRows_def diagnoseRow_def)
  have h2: "makeSchema_rowsContainRequiredColumns_validate opts0 table231 = Inr (Some diag231)"
    by (simp add: opts0_def cell0_def table231_def diag231_def Let_def isRow_def isCell_def tableColumns_def countCells_def
        invalidRows_def diagnoseRow_def)
  have h3: "diag231 ! 1 \<in> set diag231" by (simp add: diag231_def)
  from add_nonneg[OF disjI1[OF refl] h1 h3] add_nonneg[OF disjI2[OF refl] h2 h3]
  show ?thesis using h1 h2 by (simp add: diag231_def)
qed

lemma rowsContainRequiredColumns_sel [simp]:
  "match (rowsContainRequiredColumns opts) = isTable opts"
  "validate (rowsContainRequiredColumns opts) = rowsContainRequiredColumns_validate opts"
  "normalize_rule (rowsContainRequiredColumns opts) = rowsContainRequiredColumns_normalize opts"
  by (simp_all add: rowsContainRequiredColumns_def)

lemma tableContainAlignData_sel [simp]:
  "match (tableContainAlignData opts) = isTable opts"
  "validate (tableContainAlignData opts) = tableContainAlignData_validate opts"
  "normalize_rule (tableContainAlignData opts) = tableContainAlignData_normalize opts"
  by (simp_all add: tableContainAlignData_def)

section \<open>The alignment rule\<close>

text \<open>
  C8. On a table that has a first child, \<open>validate\<close> of the alignment rule is \<open>null\<close> when
  that child is not a row; otherwise \<open>columns\<close> is the number of all children of the first
  child and \<open>align\<close> is the table's \<open>'align'\<close> entry or the empty sequence, and the result
  is \<open>null\<close> when \<open>align\<close> has \<open>columns\<close> entries and \<open>{align, columns}\<close> when it has not.
\<close>

theorem alignment_diagnosis:
  assumes "ns \<noteq> []"
  shows "tableContainAlignData_validate opts (Block k ty d ns) =
     (let r = hd ns;
          al = (case map_of d ''align'' of None \<Rightarrow> [] | Some a \<Rightarrow> a);
          cols = length (nodes r)
      in if type r \<noteq> Some (typeRow opts) then Inr None
         else if length al = cols then Inr None
         else Inr (Some \<lparr>align = al, columns = cols\<rparr>))"
  using assms by (cases ns) (simp_all add: Let_def)

theorem alignment_diagnosis_witness:
  "nodes tableLeft \<noteq> [] \<and>
   tableContainAlignData_validate opts0 tableLeft =
     Inr (Some \<lparr>align = [''left''], columns = 3\<rparr>)"
proof -
  have h: "[Block 1 ''table_row'' [] [cell0 2, cell0 4, cell0 6]] \<noteq> []" by simp
  show ?thesis
    using alignment_diagnosis[OF h, of opts0 0 "''table''" "[(''align'', [''left''])]"]
    by (simp add: tableLeft_def opts0_def Let_def)
qed

text \<open>
  C3. Every rule's \<open>validate\<close> is to return a value on every matched node, a table without
  children included. The alignment rule does not: on a table with no children
  \<open>table.nodes.first()\<close> is \<open>undefined\<close> and reading its \<open>type\<close> throws.
\<close>

theorem alignment_fails_on_empty_table:
  "tableContainAlignData_validate opts (Block k ty d []) = Inl TypeError"
  by simp

text \<open>The other \<open>validate\<close> functions return a value on every block, and so does the
  alignment rule on a block with at least one child.\<close>

lemma validate_returns_on_blocks:
  "\<exists>r. rowsContainRequiredColumns_validate opts (Block k ty d ns) = Inr r"
  "\<exists>r. makeSchema_rowsContainRequiredColumns_validate opts (Block k ty d ns) = Inr r"
  "\<exists>r. fst (tablesContainOnlyRows_validate opts g (Block k ty d ns)) = Inr r"
  "\<exists>r. tableContainAlignData_validate opts (Block k ty d (n # ns)) = Inr r"
  by (simp_all add: Let_def split: prod.splits)

section \<open>The diagnosis of the column-count rule\<close>

text \<open>
  C2. \<open>validate\<close> of the column-count rule is to return \<open>null\<close> exactly when every row has
  no child that is not a cell and has \<open>columns\<close> cells, in both files. The function of
  \<open>validateNode.js\<close> does (\<open>validate_null_iff\<close>); the one of \<open>makeSchema.js\<close> returns
  \<open>null\<close> as soon as the cell counts agree (\<open>makeSchema_validate_null_iff\<close>), so a row of
  one cell and one paragraph passes it, while the newer function reports that row.
\<close>

theorem makeSchema_accepts_row_with_extra_node:
  "makeSchema_rowsContainRequiredColumns_validate opts0 tableExtra = Inr None \<and>
   filter (\<lambda>n. \<not> isCell opts0 n) (nodes (hd (nodes tableExtra))) = [paragraph0 4] \<and>
   rowsContainRequiredColumns_validate opts0 tableExtra =
     Inr (Some [\<lparr>row = hd (nodes tableExtra), invalids = [paragraph0 4], add = 0\<rparr>])"
  by (simp add: opts0_def cell0_def paragraph0_def tableExtra_def Let_def isRow_def isCell_def tableColumns_def countCells_def
      invalidRows_def diagnoseRow_def)

section \<open>The pipeline\<close>

text \<open>
  C10. A table with at least one child and no row among its children gets no repair from
  the validator of \<open>validateNode\<close>: the column-count rule sees no row, the alignment rule
  sees a first child that is not a row, and the rows-only rule is not in the list.
\<close>

theorem rowless_table_not_repaired:
  assumes "ns \<noteq> []" and "\<forall>n\<in>set ns. \<not> isRow opts n"
  shows "validateNode opts (Block k (typeTable opts) d ns) = Inr None"
proof -
  have rows: "filter (isRow opts) ns = []" using assms(2) by (simp add: filter_empty_conv)
  have c: "rowsContainRequiredColumns_validate opts (Block k (typeTable opts) d ns) = Inr None"
    by (simp add: rows Let_def invalidRows_def)
  obtain r rs where ns: "ns = r # rs" using assms(1) by (cases ns) auto
  then have "\<not> isRow opts r" using assms(2) by simp
  then have a: "tableContainAlignData_validate opts (Block k (typeTable opts) d ns) = Inr None"
    by (simp add: ns isRow_def)
  show ?thesis
    by (simp add: validateNode_def toValidateNode_def c a
        del: rowsContainRequiredColumns_validate.simps tableContainAlignData_validate.simps)
qed

theorem rowless_table_not_repaired_witness:
  "validateNode opts0 tableNoRows = Inr None"
proof -
  have h1: "[paragraph0 1, paragraph0 3] \<noteq> []" by simp
  have h2: "\<forall>n\<in>set [paragraph0 1, paragraph0 3]. \<not> isRow opts0 n"
    by (simp add: isRow_def opts0_def paragraph0_def)
  from rowless_table_not_repaired[OF h1 h2, of 0 "[]"]
  show ?thesis by (simp add: tableNoRows_def opts0_def)
qed

text \<open>
  C5. On a table that satisfies the invariants every configured rule is to diagnose
  \<open>null\<close>. The table without children and with one alignment tag satisfies them as they
  are worded, and the alignment rule throws on it, so the validator throws. On a table
  with at least one child the statement holds (\<open>valid_table_no_diagnosis\<close> below).
\<close>

theorem valid_empty_table_fails:
  "satisfiesInvariants opts0 tableEmpty \<and>
   rowsContainRequiredColumns_validate opts0 tableEmpty = Inr None \<and>
   tableContainAlignData_validate opts0 tableEmpty = Inl TypeError \<and>
   validateNode opts0 tableEmpty = Inl TypeError"
  by (simp add: satisfiesInvariants_def tableEmpty_def opts0_def Let_def invalidRows_def
      validateNode_def toValidateNode_def isTable_def)

lemma valid_table_no_diagnosis:
  assumes "satisfiesInvariants opts (Block k ty d ns)" and "ns \<noteq> []"
  shows "rowsContainRequiredColumns_validate opts (Block k ty d ns) = Inr None \<and>
         tableContainAlignData_validate opts (Block k ty d ns) = Inr None \<and>
         validateNode opts (Block k ty d ns) = Inr None"
proof -
  let ?cols = "Max (set (1 # map (countCells opts) ns))"
  from assms(1) have allrows: "\<forall>n\<in>set ns. isRow opts n"
    by (simp add: satisfiesInvariants_def Let_def list_all_iff)
  then have rows: "filter (isRow opts) ns = ns" by simp
  have cols: "tableColumns opts ns = ?cols"
    by (simp add: tableColumns_Max)
  from assms(1) have each: "\<forall>r\<in>set ns. length (nodes r) = ?cols \<and> (\<forall>c\<in>set (nodes r). isCell opts c)"
    by (simp add: satisfiesInvariants_def Let_def list_all_iff)
  have "filter (\<lambda>n. \<not> isCell opts n) (nodes r) = [] \<and> countCells opts r = tableColumns opts ns"
    if "r \<in> set ns" for r
  proof -
    from each that have l: "length (nodes r) = ?cols" and a: "\<forall>c\<in>set (nodes r). isCell opts c"
      by blast+
    from a have "filter (isCell opts) (nodes r) = nodes r" by simp
    then have "countCells opts r = length (nodes r)" by (simp add: countCells_def)
    with a l cols show ?thesis by (simp add: filter_empty_conv)
  qed
  then have c: "rowsContainRequiredColumns_validate opts (Block k ty d ns) = Inr None"
    unfolding validate_null_iff rows by blast
  obtain r rs where ns: "ns = r # rs" using assms(2) by (cases ns) auto
  from assms(1) obtain al where al: "map_of d ''align'' = Some al" "length al = ?cols"
    by (auto simp: satisfiesInvariants_def Let_def split: option.splits)
  have "length (nodes r) = ?cols" using each ns by simp
  then have a: "tableContainAlignData_validate opts (Block k ty d ns) = Inr None"
    using al by (simp add: ns Let_def)
  show ?thesis
    by (simp add: validateNode_def toValidateNode_def c a
        del: rowsContainRequiredColumns_validate.simps tableContainAlignData_validate.simps)
qed

subsection \<open>First match\<close>

lemma validateTableNode_skip:
  "\<forall>p\<in>set pre. p node = Inr None \<Longrightarrow>
     validateTableNode (pre @ vs) node = validateTableNode vs node"
  by (induction pre) simp_all

lemma toValidateNode_None:
  "toValidateNode r node = Inr None \<longleftrightarrow> \<not> match r node \<or> validate r node = Inr None"
  by (auto simp: toValidateNode_def split: sum.splits option.splits)

lemma toValidateNode_Some:
  "match r node \<Longrightarrow> validate r node = Inr (Some d) \<Longrightarrow>
     toValidateNode r node = Inr (Some (\<lambda>change. normalize_rule r change node d))"
  by (simp add: toValidateNode_def)

text \<open>
  The search of \<open>validateTableNode\<close> on any list of validators: the first validator that
  yields a repair decides, whatever follows it (a validator that would throw included),
  and when every validator yields none the result is \<open>undefined\<close>.
\<close>

lemma validateTableNode_first_match:
  "((\<forall>p\<in>set pre. p node = Inr None) \<and> match r node \<and> validate r node = Inr (Some d) \<longrightarrow>
      validateTableNode (pre @ toValidateNode r # post) node =
        Inr (Some (\<lambda>change. normalize_rule r change node d))) \<and>
   ((\<forall>p\<in>set vs. p node = Inr None) \<longrightarrow> validateTableNode vs node = Inr None) \<and>
   (toValidateNode r node = Inr None \<longleftrightarrow> \<not> match r node \<or> validate r node = Inr None)"
proof (intro conjI impI)
  assume a: "(\<forall>p\<in>set pre. p node = Inr None) \<and> match r node \<and> validate r node = Inr (Some d)"
  then have "validateTableNode (pre @ toValidateNode r # post) node =
      validateTableNode (toValidateNode r # post) node"
    by (simp add: validateTableNode_skip)
  also have "\<dots> = Inr (Some (\<lambda>change. normalize_rule r change node d))"
    using a by (simp add: toValidateNode_Some)
  finally show "validateTableNode (pre @ toValidateNode r # post) node =
      Inr (Some (\<lambda>change. normalize_rule r change node d))" .
next
  assume "\<forall>p\<in>set vs. p node = Inr None"
  then have "validateTableNode (vs @ []) node = validateTableNode [] node"
    by (rule validateTableNode_skip)
  then show "validateTableNode vs node = Inr None" by simp
next
  show "toValidateNode r node = Inr None \<longleftrightarrow> \<not> match r node \<or> validate r node = Inr None"
    by (rule toValidateNode_None)
qed

text \<open>
  C6. On every node the validator of \<open>validateNode\<close> is to try the configured rules in
  order, return the repair closure of the first rule that matches and diagnoses the node
  without calling the rules after it, and return \<open>undefined\<close> when no rule yields a
  diagnosis. The first statement below is what the validator computes on every node: a
  node that is not a table gets no repair; on a table the column-count diagnosis decides
  when it is not \<open>null\<close>, and only otherwise is the alignment rule asked. The second is
  the table without children: the column-count rule diagnoses \<open>null\<close>, the alignment rule
  yields no diagnosis either, it throws, and so the validator throws instead of returning
  \<open>undefined\<close>.
\<close>

theorem validateNode_first_match:
  "validateNode opts node =
     (if \<not> isTable opts node then Inr None
      else case rowsContainRequiredColumns_validate opts node of
             Inl e \<Rightarrow> Inl e
           | Inr (Some rows) \<Rightarrow>
               Inr (Some (\<lambda>change. rowsContainRequiredColumns_normalize opts change node rows))
           | Inr None \<Rightarrow>
               (case tableContainAlignData_validate opts node of
                  Inl e \<Rightarrow> Inl e
                | Inr None \<Rightarrow> Inr None
                | Inr (Some diag) \<Rightarrow>
                    Inr (Some (\<lambda>change. tableContainAlignData_normalize opts change node diag)))) \<and>
   isTable opts (Block k (typeTable opts) d []) \<and>
   rowsContainRequiredColumns_validate opts (Block k (typeTable opts) d []) = Inr None \<and>
   tableContainAlignData_validate opts (Block k (typeTable opts) d []) = Inl TypeError \<and>
   validateNode opts (Block k (typeTable opts) d []) = Inl TypeError"
proof (intro conjI)
  show "validateNode opts node =
     (if \<not> isTable opts node then Inr None
      else case rowsContainRequiredColumns_validate opts node of
             Inl e \<Rightarrow> Inl e
           | Inr (Some rows) \<Rightarrow>
               Inr (Some (\<lambda>change. rowsContainRequiredColumns_normalize opts change node rows))
           | Inr None \<Rightarrow>
               (case tableContainAlignData_validate opts node of
                  Inl e \<Rightarrow> Inl e
                | Inr None \<Rightarrow> Inr None
                | Inr (Some diag) \<Rightarrow>
                    Inr (Some (\<lambda>change. tableContainAlignData_normalize opts change node diag))))"
    by (simp add: validateNode_def toValidateNode_def
        del: rowsContainRequiredColumns_validate.simps tableContainAlignData_validate.simps
        split: sum.splits option.splits)
next
  show "isTable opts (Block k (typeTable opts) d [])" by (simp add: isTable_def)
next
  show c: "rowsContainRequiredColumns_validate opts (Block k (typeTable opts) d []) = Inr None"
    by (simp add: Let_def invalidRows_def)
next
  show a: "tableContainAlignData_validate opts (Block k (typeTable opts) d []) = Inl TypeError"
    by simp
next
  have c: "rowsContainRequiredColumns_validate opts (Block k (typeTable opts) d []) = Inr None"
    by (simp add: Let_def invalidRows_def)
  have a: "tableContainAlignData_validate opts (Block k (typeTable opts) d []) = Inl TypeError"
    by simp
  show "validateNode opts (Block k (typeTable opts) d []) = Inl TypeError"
    by (simp add: validateNode_def toValidateNode_def isTable_def c a
        del: rowsContainRequiredColumns_validate.simps tableContainAlignData_validate.simps)
qed

lemma validateTableNode_first_match_example:
  "validateTableNode
     [toValidateNode (rowsContainRequiredColumns opts0),
      toValidateNode (tableContainAlignData opts0),
      (\<lambda>n. Inl TypeError)] tableLeft =
     Inr (Some (\<lambda>change. tableContainAlignData_normalize opts0 change tableLeft
                  \<lparr>align = [''left''], columns = 3\<rparr>)) \<and>
   validateNode opts0 tableNoRows = Inr None"
proof -
  have t: "isTable opts0 tableLeft" by (simp add: isTable_def opts0_def tableLeft_def)
  have c: "rowsContainRequiredColumns_validate opts0 tableLeft = Inr None"
    by (simp add: opts0_def cell0_def tableLeft_def Let_def isRow_def isCell_def tableColumns_def countCells_def
        invalidRows_def diagnoseRow_def)
  have a: "tableContainAlignData_validate opts0 tableLeft =
      Inr (Some \<lparr>align = [''left''], columns = 3\<rparr>)"
    by (simp add: opts0_def cell0_def tableLeft_def Let_def)
  have pre: "\<forall>p\<in>set [toValidateNode (rowsContainRequiredColumns opts0)]. p tableLeft = Inr None"
    using c by (simp add: toValidateNode_def)
  have n1: "rowsContainRequiredColumns_validate opts0 tableNoRows = Inr None"
    by (simp add: opts0_def paragraph0_def tableNoRows_def Let_def isRow_def invalidRows_def)
  have n2: "tableContainAlignData_validate opts0 tableNoRows = Inr None"
    by (simp add: opts0_def paragraph0_def tableNoRows_def Let_def)
  have none: "\<forall>p\<in>set [toValidateNode (rowsContainRequiredColumns opts0),
      toValidateNode (tableContainAlignData opts0)]. p tableNoRows = Inr None"
    using n1 n2 by (simp add: toValidateNode_def)
  note fm = validateTableNode_first_match[where pre = "[toValidateNode (rowsContainRequiredColumns opts0)]"
      and node = tableLeft and r = "tableContainAlignData opts0"
      and d = "\<lparr>align = [''left''], columns = 3\<rparr>"
      and post = "[\<lambda>n. Inl TypeError]"]
  note fn = validateTableNode_first_match[where vs = "[toValidateNode (rowsContainRequiredColumns opts0),
      toValidateNode (tableContainAlignData opts0)]" and node = tableNoRows
      and r = "rowsContainRequiredColumns opts0"]
  from fm pre t a have 1: "validateTableNode
     [toValidateNode (rowsContainRequiredColumns opts0),
      toValidateNode (tableContainAlignData opts0),
      (\<lambda>n. Inl TypeError)] tableLeft =
     Inr (Some (\<lambda>change. tableContainAlignData_normalize opts0 change tableLeft
                  \<lparr>align = [''left''], columns = 3\<rparr>))"
    by simp
  from fn none have 2: "validateNode opts0 tableNoRows = Inr None"
    unfolding validateNode_def by blast
  from 1 2 show ?thesis by (rule conjI)
qed

section \<open>The rows-only rule\<close>

lemma key_remove_key [simp]: "key (remove_key k n) = key n"
  by (cases n) simp_all

lemma type_remove_key [simp]: "type (remove_key k n) = type n"
  by (cases n) simp_all

lemma document_fold_remove:
  "document (fold (\<lambda>child c. removeNodeByKey (key child) nrm c) xs ch) =
     fold (\<lambda>child n. remove_key (key child) n) xs (document ch)"
  by (induction xs arbitrary: ch) (simp_all add: removeNodeByKey_def)

lemma document_fold_insert:
  "document (fold (\<lambda>child c. insertNodeByKey pk i child nrm c) xs ch) =
     fold (\<lambda>child n. insert_key pk i child n) xs (document ch)"
  by (induction xs arbitrary: ch) (simp_all add: insertNodeByKey_def)

lemma fold_remove_keeps:
  "\<exists>ns'. fold (\<lambda>child n. remove_key (key child) n) xs (Block k ty d ns) = Block k ty d ns' \<and>
     (\<forall>x\<in>set ns. key x \<notin> key ` set xs \<longrightarrow>
        (\<exists>x'\<in>set ns'. key x' = key x \<and> type x' = type x))"
proof (induction xs arbitrary: ns)
  case Nil
  then show ?case by auto
next
  case (Cons a xs)
  let ?ns1 = "map (remove_key (key a)) (filter (\<lambda>n. key n \<noteq> key a) ns)"
  from Cons.IH[of ?ns1] obtain ns' where
    f: "fold (\<lambda>child n. remove_key (key child) n) xs (Block k ty d ?ns1) = Block k ty d ns'"
    and p: "\<forall>x\<in>set ?ns1. key x \<notin> key ` set xs \<longrightarrow>
        (\<exists>x'\<in>set ns'. key x' = key x \<and> type x' = type x)"
    by blast
  have "\<exists>x'\<in>set ns'. key x' = key x \<and> type x' = type x"
    if x: "x \<in> set ns" and nk: "key x \<notin> key ` set (a # xs)" for x
  proof -
    from x nk have "remove_key (key a) x \<in> set ?ns1" by auto
    moreover from nk have "key (remove_key (key a) x) \<notin> key ` set xs" by simp
    ultimately obtain x' where "x' \<in> set ns'" "key x' = key (remove_key (key a) x)"
      "type x' = type (remove_key (key a) x)"
      using p by blast
    then show ?thesis by auto
  qed
  with f show ?case by auto
qed

lemma makeEmptyRow_isRow: "isRow opts (fst (makeEmptyRow opts g))"
  by (simp add: makeEmptyRow_def makeEmptyCell_def isRow_def)

lemma rows_only_repair_root:
  assumes "table = Block k ty d ns" and "distinct (map key ns)"
  shows "case fst (tablesContainOnlyRows_validate opts g table) of
           Inl e \<Rightarrow> False
         | Inr None \<Rightarrow> filter (isRow opts) ns \<noteq> [] \<and> list_all (isRow opts) ns
         | Inr (Some diag) \<Rightarrow>
             table_invalids diag = filter (\<lambda>n. \<not> isRow opts n) ns \<and>
             list_all (\<lambda>n. \<not> isRow opts n) (table_invalids diag) \<and>
             table_add diag =
               (if filter (isRow opts) ns = [] then [fst (makeEmptyRow opts g)] else []) \<and>
             fst (makeEmptyRow opts g) =
               Block (g + 2) (typeRow opts) []
                 [Block (Suc g) (typeCell opts) [] [Text g '''']] \<and>
             filter (isRow opts)
               (nodes (document (tablesContainOnlyRows_normalize opts
                  (ch\<lparr>document := table\<rparr>) table diag))) \<noteq> []"
proof -
  let ?invs = "filter (\<lambda>n. \<not> isRow opts n) ns"
  have len: "length ?invs = length ns \<longleftrightarrow> filter (isRow opts) ns = []"
    using sum_length_filter_compl[of "isRow opts" ns] by auto
  show ?thesis
  proof (cases "filter (isRow opts) ns = []")
    case True
    let ?r = "fst (makeEmptyRow opts g)"
    let ?diag = "\<lparr>table_invalids = ?invs, table_add = [?r]\<rparr>"
    have v: "fst (tablesContainOnlyRows_validate opts g table) = Inr (Some ?diag)"
      using True len by (simp add: assms(1) Let_def split: prod.splits)
    obtain ns' where
      "fold (\<lambda>child n. remove_key (key child) n) ?invs (Block k ty d ns) = Block k ty d ns'"
      using fold_remove_keeps[of ?invs k ty d ns] by blast
    then have "nodes (document (tablesContainOnlyRows_normalize opts
        (ch\<lparr>document := table\<rparr>) table ?diag)) = ?r # ns'"
      by (simp add: tablesContainOnlyRows_normalize_def document_fold_remove
          insertNodeByKey_def assms(1))
    then show ?thesis
      using True unfolding v
      by (simp add: list_all_iff makeEmptyRow_def makeEmptyCell_def isRow_def)
  next
    case False
    then obtain x where x: "x \<in> set ns" "isRow opts x"
      by (auto simp: filter_empty_conv)
    show ?thesis
    proof (cases "?invs = []")
      case True
      then have "fst (tablesContainOnlyRows_validate opts g table) = Inr None"
        using False len by (simp add: assms(1) Let_def)
      moreover from True have "list_all (isRow opts) ns"
        by (simp add: filter_empty_conv list_all_iff)
      ultimately show ?thesis using False by simp
    next
      case nonempty: False
      let ?diag = "\<lparr>table_invalids = ?invs, table_add = []\<rparr>"
      have v: "fst (tablesContainOnlyRows_validate opts g table) = Inr (Some ?diag)"
        using False nonempty len by (simp add: assms(1) Let_def)
      have "key x \<notin> key ` set ?invs"
      proof
        assume "key x \<in> key ` set ?invs"
        then obtain y where y: "y \<in> set ns" "\<not> isRow opts y" "key y = key x" by auto
        from assms(2) have "inj_on key (set ns)" by (simp add: distinct_map)
        with x(1) y(1,3) have "y = x" by (auto dest: inj_onD)
        with x(2) y(2) show False by simp
      qed
      with fold_remove_keeps[of ?invs k ty d ns] x(1) obtain ns' x' where
        f: "fold (\<lambda>child n. remove_key (key child) n) ?invs (Block k ty d ns) = Block k ty d ns'"
        and x': "x' \<in> set ns'" "type x' = type x"
        by blast
      from x' x(2) have "filter (isRow opts) ns' \<noteq> []"
        by (auto simp: filter_empty_conv isRow_def)
      moreover have "nodes (document (tablesContainOnlyRows_normalize opts
          (ch\<lparr>document := table\<rparr>) table ?diag)) = ns'"
        by (simp add: tablesContainOnlyRows_normalize_def document_fold_remove f assms(1))
      ultimately show ?thesis
        using False unfolding v
        by (simp add: list_all_iff makeEmptyRow_def makeEmptyCell_def)
    qed
  qed
qed


section \<open>The column-count repair\<close>

lemma key_in_keys: "key n \<in> set (keys n)"
  by (cases n) simp_all

lemma key_remove_all [simp]: "key (remove_all K n) = key n"
  by (cases n) simp_all

lemma remove_all_empty: "remove_all {} n = n"
  by (induction n) (simp_all add: map_idI)

lemma remove_all_remove_key:
  "remove_all K (remove_key k n) = remove_all (insert k K) n"
proof (induction n)
  case (Block kk ty d ns)
  have "map (remove_all K) (filter (\<lambda>n. key n \<notin> K) (map (remove_key k) (filter (\<lambda>n. key n \<noteq> k) ns)))
      = map (remove_all (insert k K)) (filter (\<lambda>n. key n \<notin> insert k K) ns)"
    using Block.IH
    by (induction ns) auto
  then show ?case by simp
next
  case (Text kk s)
  then show ?case by simp
qed

lemma fold_remove_key:
  "fold (\<lambda>child n. remove_key (key child) n) xs n = remove_all (key ` set xs) n"
proof -
  have "remove_all K (fold (\<lambda>child n. remove_key (key child) n) xs n) =
      remove_all (K \<union> key ` set xs) n" for K
  proof (induction xs arbitrary: K rule: rev_induct)
    case Nil
    then show ?case by simp
  next
    case (snoc x xs)
    have "remove_all K (remove_key (key x) (fold (\<lambda>child n. remove_key (key child) n) xs n))
        = remove_all (insert (key x) K) (fold (\<lambda>child n. remove_key (key child) n) xs n)"
      by (rule remove_all_remove_key)
    also have "\<dots> = remove_all (insert (key x) K \<union> key ` set xs) n"
      by (rule snoc.IH)
    finally show ?case by (simp add: Un_commute insert_commute)
  qed
  from this[of "{}"] show ?thesis by (simp add: remove_all_empty)
qed

lemma remove_all_id: "K \<inter> set (keys n) = {} \<Longrightarrow> remove_all K n = n"
proof (induction n)
  case (Block kk ty d ns)
  have sub: "set (keys x) \<subseteq> set (keys (Block kk ty d ns))" if "x \<in> set ns" for x
    using that by auto
  have a: "key x \<notin> K" if "x \<in> set ns" for x
    using Block.prems sub[OF that] key_in_keys[of x] by blast
  have b: "remove_all K x = x" if "x \<in> set ns" for x
    using Block.IH[OF that] Block.prems sub[OF that] by blast
  from a have "filter (\<lambda>n. key n \<notin> K) ns = ns" by simp
  with b show ?case by (simp add: map_idI)
next
  case (Text kk s)
  then show ?case by simp
qed

lemma insert_key_id: "pk \<notin> set (keys n) \<Longrightarrow> insert_key pk i c n = n"
proof (induction n)
  case (Block kk ty d ns)
  have "insert_key pk i c x = x" if "x \<in> set ns" for x
    using Block.IH[OF that] Block.prems that by auto
  with Block.prems show ?case by (simp add: map_idI)
next
  case (Text kk s)
  then show ?case by simp
qed

lemma distinct_concat_disjoint:
  "distinct (concat (map f xs)) \<Longrightarrow> x \<in> set xs \<Longrightarrow> y \<in> set xs \<Longrightarrow> x \<noteq> y \<Longrightarrow>
     set (f x) \<inter> set (f y) = {}"
  by (induction xs) auto

lemma distinct_keys_child_key:
  assumes "distinct (concat (map keys cs))" and "x \<in> set cs" and "y \<in> set cs"
    and "key x \<in> set (keys y)"
  shows "x = y"
proof (rule ccontr)
  assume "x \<noteq> y"
  from distinct_concat_disjoint[OF assms(1,2,3) this] key_in_keys[of x] assms(4)
  show False by auto
qed

lemma isEmptyCell_isCell: "isEmptyCell opts n \<Longrightarrow> isCell opts n"
  by (induction opts n rule: isEmptyCell.induct) (simp_all add: isCell_def)

lemma remove_invalids_row:
  assumes "distinct (keys (Block rk rt rd cs))"
  shows "remove_all (key ` set (filter (\<lambda>n. \<not> isCell opts n) cs)) (Block rk rt rd cs) =
         Block rk rt rd (filter (isCell opts) cs)"
proof -
  let ?K = "key ` set (filter (\<lambda>n. \<not> isCell opts n) cs)"
  from assms have d: "distinct (concat (map keys cs))" by simp
  have mem: "key x \<in> ?K \<longleftrightarrow> \<not> isCell opts x" if x: "x \<in> set cs" for x
  proof
    assume "key x \<in> ?K"
    then obtain y where y: "y \<in> set cs" "\<not> isCell opts y" "key y = key x" by auto
    from distinct_keys_child_key[OF d y(1) x] y(3) key_in_keys[of x] have "y = x" by simp
    with y(2) show "\<not> isCell opts x" by simp
  next
    assume "\<not> isCell opts x"
    with x show "key x \<in> ?K" by auto
  qed
  then have f: "filter (\<lambda>n. key n \<notin> ?K) cs = filter (isCell opts) cs"
    by (intro filter_cong) auto
  have "remove_all ?K x = x" if x: "x \<in> set cs" "isCell opts x" for x
  proof (rule remove_all_id)
    show "?K \<inter> set (keys x) = {}"
    proof (rule ccontr)
      assume "?K \<inter> set (keys x) \<noteq> {}"
      then obtain y where y: "y \<in> set cs" "\<not> isCell opts y" "key y \<in> set (keys x)" by auto
      from distinct_keys_child_key[OF d y(1) x(1) y(3)] x(2) y(2) show False by simp
    qed
  qed
  then have "map (remove_all ?K) (filter (isCell opts) cs) = filter (isCell opts) cs"
    by (intro map_idI) simp
  with f show ?thesis by simp
qed

lemma remove_invalids_doc:
  assumes c: "c = Block rk rt rd cs"
    and d: "distinct (keys c)"
    and dn: "set (concat (map keys dn)) \<inter> set (keys c) = {}"
    and rest: "set (concat (map keys rest)) \<inter> set (keys c) = {}"
  shows "remove_all (key ` set (filter (\<lambda>n. \<not> isCell opts n) cs))
           (Block tk tt td (dn @ c # rest)) =
         Block tk tt td (dn @ Block rk rt rd (filter (isCell opts) cs) # rest)"
proof -
  let ?K = "key ` set (filter (\<lambda>n. \<not> isCell opts n) cs)"
  have K: "?K \<subseteq> set (concat (map keys cs))"
    using key_in_keys by auto
  then have Kc: "?K \<subseteq> set (keys c)" by (auto simp: c)
  from d K have rk: "rk \<notin> ?K" by (auto simp: c)
  have out: "key y \<notin> ?K \<and> remove_all ?K y = y"
    if "set (keys y) \<inter> set (keys c) = {}" for y
  proof
    from that Kc key_in_keys[of y] show "key y \<notin> ?K" by blast
    from that Kc have "?K \<inter> set (keys y) = {}" by blast
    then show "remove_all ?K y = y" by (rule remove_all_id)
  qed
  have odn: "key y \<notin> ?K \<and> remove_all ?K y = y" if "y \<in> set dn" for y
    using that dn by (intro out) auto
  have orest: "key y \<notin> ?K \<and> remove_all ?K y = y" if "y \<in> set rest" for y
    using that rest by (intro out) auto
  have f: "filter (\<lambda>n. key n \<notin> ?K) (dn @ c # rest) = dn @ c # rest"
    using odn orest rk by (auto simp: c filter_id_conv)
  have m1: "map (remove_all ?K) dn = dn" using odn by (intro map_idI) simp
  have m2: "map (remove_all ?K) rest = rest" using orest by (intro map_idI) simp
  have m3: "remove_all ?K c = Block rk rt rd (filter (isCell opts) cs)"
    using remove_invalids_row[of rk rt rd cs opts] d by (simp add: c)
  have "remove_all ?K (Block tk tt td (dn @ c # rest)) =
      Block tk tt td (map (remove_all ?K) (filter (\<lambda>n. key n \<notin> ?K) (dn @ c # rest)))"
    by (simp only: remove_all.simps)
  also have "\<dots> = Block tk tt td (map (remove_all ?K) (dn @ c # rest))"
    by (simp only: f)
  also have "\<dots> = Block tk tt td (dn @ Block rk rt rd (filter (isCell opts) cs) # rest)"
    by (simp only: map_append list.map m1 m2 m3)
  finally show ?thesis .
qed

lemma insertEmptyCell_simps:
  "document (insertEmptyCell opts rk ch) =
     insert_key rk 0 (Block (Suc (nextKey ch)) (typeCell opts) [] [Text (nextKey ch) ''''])
       (document ch)"
  "nextKey (insertEmptyCell opts rk ch) = nextKey ch + 2"
  "operations (insertEmptyCell opts rk ch) =
     operations ch @
       [InsertNodeByKey rk 0
          (Block (Suc (nextKey ch)) (typeCell opts) [] [Text (nextKey ch) '''']) False]"
  by (simp_all add: insertEmptyCell_def makeEmptyCell_def insertNodeByKey_def)

lemma insert_key_row:
  assumes "tk \<noteq> rk"
    and "rk \<notin> set (concat (map keys dn))"
    and "rk \<notin> set (concat (map keys rest))"
  shows "insert_key rk 0 cell (Block tk tt td (dn @ Block rk rt rd cs # rest)) =
         Block tk tt td (dn @ Block rk rt rd (cell # cs) # rest)"
proof -
  have "insert_key rk 0 cell y = y" if "y \<in> set dn" for y
    using that assms(2) by (intro insert_key_id) auto
  then have m1: "map (insert_key rk 0 cell) dn = dn" by (intro map_idI) simp
  have "insert_key rk 0 cell y = y" if "y \<in> set rest" for y
    using that assms(3) by (intro insert_key_id) auto
  then have m2: "map (insert_key rk 0 cell) rest = rest" by (intro map_idI) simp
  show ?thesis using assms(1) by (simp add: m1 m2)
qed

lemma insert_cells_doc:
  assumes "tk \<noteq> rk"
    and "rk \<notin> set (concat (map keys dn))"
    and "rk \<notin> set (concat (map keys rest))"
    and "document ch = Block tk tt td (dn @ Block rk rt rd cs # rest)"
  shows "\<exists>new. document (fold (\<lambda>_ c. insertEmptyCell opts rk c) xs ch) =
             Block tk tt td (dn @ Block rk rt rd (new @ cs) # rest) \<and>
           length new = length xs \<and>
           (\<forall>x\<in>set new. isEmptyCell opts x \<and>
              (\<forall>k\<in>set (keys x). nextKey ch \<le> k \<and> k < nextKey ch + 2 * length xs)) \<and>
           nextKey (fold (\<lambda>_ c. insertEmptyCell opts rk c) xs ch) =
             nextKey ch + 2 * length xs"
  using assms(4)
proof (induction xs arbitrary: ch cs)
  case Nil
  then show ?case by simp
next
  case (Cons x xs)
  let ?cell = "Block (Suc (nextKey ch)) (typeCell opts) [] [Text (nextKey ch) '''']"
  let ?ch = "insertEmptyCell opts rk ch"
  have doc: "document ?ch = Block tk tt td (dn @ Block rk rt rd (?cell # cs) # rest)"
    by (simp only: insertEmptyCell_simps Cons.prems insert_key_row[OF assms(1,2,3)])
  from Cons.IH[OF doc] obtain new where
    n1: "document (fold (\<lambda>_ c. insertEmptyCell opts rk c) xs ?ch) =
           Block tk tt td (dn @ Block rk rt rd (new @ ?cell # cs) # rest)"
    and n2: "length new = length xs"
    and n3: "\<forall>x\<in>set new. isEmptyCell opts x \<and>
              (\<forall>k\<in>set (keys x). nextKey ?ch \<le> k \<and> k < nextKey ?ch + 2 * length xs)"
    and n4: "nextKey (fold (\<lambda>_ c. insertEmptyCell opts rk c) xs ?ch) =
             nextKey ?ch + 2 * length xs"
    by blast
  let ?new = "new @ [?cell]"
  have "document (fold (\<lambda>_ c. insertEmptyCell opts rk c) (x # xs) ch) =
      Block tk tt td (dn @ Block rk rt rd (?new @ cs) # rest)"
    using n1 by simp
  moreover have "length ?new = length (x # xs)" using n2 by simp
  moreover have "\<forall>y\<in>set ?new. isEmptyCell opts y \<and>
      (\<forall>k\<in>set (keys y). nextKey ch \<le> k \<and> k < nextKey ch + 2 * length (x # xs))"
  proof -
    have b: "nextKey ch \<le> k \<and> k < nextKey ch + 2 * length (x # xs)"
      if "y \<in> set new" "k \<in> set (keys y)" for y k
    proof -
      from n3 that have "nextKey ?ch \<le> k \<and> k < nextKey ?ch + 2 * length xs" by blast
      then show ?thesis by (simp add: insertEmptyCell_simps)
    qed
    have e: "isEmptyCell opts y" if "y \<in> set new" for y using n3 that by blast
    from b e show ?thesis by auto
  qed
  moreover have "nextKey (fold (\<lambda>_ c. insertEmptyCell opts rk c) (x # xs) ch) =
      nextKey ch + 2 * length (x # xs)"
    using n4 by (simp add: insertEmptyCell_simps)
  ultimately show ?case by blast
qed

lemma document_fold_removeNodeByKey:
  "document (fold (\<lambda>child c. removeNodeByKey (key child) nrm c) xs ch) =
     remove_all (key ` set xs) (document ch)"
  by (simp add: document_fold_remove fold_remove_key)

lemma nextKey_fold_removeNodeByKey:
  "nextKey (fold (\<lambda>child c. removeNodeByKey (key child) nrm c) xs ch) = nextKey ch"
  by (induction xs arbitrary: ch) (simp_all add: removeNodeByKey_def)

lemma type_Block_isRow:
  "isRow opts c \<Longrightarrow> \<exists>rk rd cs. c = Block rk (typeRow opts) rd cs"
  by (cases c) (simp_all add: isRow_def)

lemma normalizeRow_doc:
  assumes e: "diagnoseRow opts cols c = Some e"
    and row: "isRow opts c"
    and le: "countCells opts c \<le> cols"
    and d: "distinct (keys c)"
    and tk: "tk \<notin> set (keys c)"
    and dn: "set (concat (map keys dn)) \<inter> set (keys c) = {}"
    and rest: "set (concat (map keys rest)) \<inter> set (keys c) = {}"
    and doc: "document ch = Block tk tt td (dn @ c # rest)"
  shows "\<exists>c'. document (normalizeRow opts e ch) = Block tk tt td (dn @ c' # rest) \<and>
           rowRepaired opts cols c c' \<and>
           nextKey ch \<le> nextKey (normalizeRow opts e ch) \<and>
           set (keys c') \<subseteq> set (keys c) \<union> {nextKey ch ..< nextKey (normalizeRow opts e ch)}"
proof -
  from type_Block_isRow[OF row] obtain rk rd cs where c: "c = Block rk (typeRow opts) rd cs"
    by blast
  from diagnoseRow_Some[OF e] have
    e1: "row e = c" and e2: "invalids e = filter (\<lambda>n. \<not> isCell opts n) cs"
    and e3: "add e = int cols - int (countCells opts c)"
    by (simp_all add: c)
  let ?n = "cols - countCells opts c"
  from e3 le have n: "nat \<bar>add e\<bar> = ?n" by simp
  let ?ch1 = "fold (\<lambda>child c. removeNodeByKey (key child) False c) (invalids e) ch"
  have doc1: "document ?ch1 =
      Block tk tt td (dn @ Block rk (typeRow opts) rd (filter (isCell opts) cs) # rest)"
    unfolding document_fold_removeNodeByKey doc e2
    by (rule remove_invalids_doc[OF c d dn rest])
  have g1: "nextKey ?ch1 = nextKey ch" by (rule nextKey_fold_removeNodeByKey)
  have k1: "tk \<noteq> rk" using tk by (auto simp: c)
  have k2: "rk \<notin> set (concat (map keys dn))" using dn unfolding c by auto
  have k3: "rk \<notin> set (concat (map keys rest))" using rest unfolding c by auto
  from insert_cells_doc[OF k1 k2 k3 doc1, of opts "[0..<?n]"] obtain new where
    n1: "document (fold (\<lambda>_ c. insertEmptyCell opts rk c) [0..<?n] ?ch1) =
          Block tk tt td (dn @ Block rk (typeRow opts) rd (new @ filter (isCell opts) cs) # rest)"
    and n2: "length new = ?n"
    and n3: "\<forall>x\<in>set new. isEmptyCell opts x \<and>
              (\<forall>k\<in>set (keys x). nextKey ch \<le> k \<and> k < nextKey ch + 2 * ?n)"
    and n4: "nextKey (fold (\<lambda>_ c. insertEmptyCell opts rk c) [0..<?n] ?ch1) =
              nextKey ch + 2 * ?n"
    unfolding g1 by auto
  let ?c' = "Block rk (typeRow opts) rd (new @ filter (isCell opts) cs)"
  have nr: "normalizeRow opts e ch = fold (\<lambda>_ c. insertEmptyCell opts rk c) [0..<?n] ?ch1"
    by (simp add: normalizeRow_def n e1 c)
  have cells: "filter (isCell opts) new = new"
    using n3 by (auto simp: filter_id_conv dest: isEmptyCell_isCell)
  have "rowRepaired opts cols c ?c'"
    using row le n2 n3
    by (simp add: rowRepaired_def c isRow_def countCells_def cells list_all_iff)
  moreover have "set (keys ?c') \<subseteq> set (keys c) \<union> {nextKey ch ..< nextKey ch + 2 * ?n}"
    using n3 by (auto simp: c)
  ultimately show ?thesis
    unfolding nr n1 n4 by auto
qed

lemma invalidRows_Cons:
  "invalidRows opts cols (c # rs) =
     (case diagnoseRow opts cols c of
        None \<Rightarrow> invalidRows opts cols rs
      | Some e \<Rightarrow> e # invalidRows opts cols rs)"
  by (simp add: invalidRows_def split: option.splits)

lemma rowRepaired_same:
  "(isRow opts c \<Longrightarrow> countCells opts c = cols) \<Longrightarrow> rowRepaired opts cols c c"
  by (simp add: rowRepaired_def countCells_def Let_def)

lemma rowRepaired_count:
  assumes "list_all2 (rowRepaired opts cols) ns ns'" and "r' \<in> set ns'" and "isRow opts r'"
  shows "countCells opts r' = cols"
proof -
  from assms(1,2) obtain r where "rowRepaired opts cols r r'"
    by (auto simp: in_set_conv_nth list_all2_conv_all_nth)
  with assms(3) show ?thesis
    by (auto simp: rowRepaired_def countCells_def Let_def split: if_splits)
qed

lemma repair_rows:
  assumes "tk \<notin> set (concat (map keys todo))"
    and "set (concat (map keys dn)) \<inter> set (concat (map keys todo)) = {}"
    and "distinct (concat (map keys todo))"
    and "\<forall>k\<in>set (concat (map keys todo)). k < nextKey ch"
    and "\<forall>r\<in>set todo. isRow opts r \<longrightarrow> countCells opts r \<le> cols"
    and "document ch = Block tk tt td (dn @ todo)"
  shows "\<exists>todo'. document (fold (normalizeRow opts)
                    (invalidRows opts cols (filter (isRow opts) todo)) ch) =
                  Block tk tt td (dn @ todo') \<and>
                list_all2 (rowRepaired opts cols) todo todo'"
  using assms
proof (induction todo arbitrary: dn ch)
  case Nil
  then show ?case by (simp add: invalidRows_def)
next
  case (Cons c rest)
  have tk: "tk \<notin> set (keys c)" and tk': "tk \<notin> set (concat (map keys rest))"
    using Cons.prems(1) by auto
  have dc: "distinct (keys c)" and dr: "distinct (concat (map keys rest))"
    and cr: "set (keys c) \<inter> set (concat (map keys rest)) = {}"
    using Cons.prems(3) by auto
  have dnc: "set (concat (map keys dn)) \<inter> set (keys c) = {}"
    and dnr: "set (concat (map keys dn)) \<inter> set (concat (map keys rest)) = {}"
    using Cons.prems(2) by auto
  have rc: "set (concat (map keys rest)) \<inter> set (keys c) = {}" using cr by blast
  have lt: "\<forall>k\<in>set (concat (map keys rest)). k < nextKey ch"
    using Cons.prems(4) by auto
  have le: "\<forall>r\<in>set rest. isRow opts r \<longrightarrow> countCells opts r \<le> cols"
    using Cons.prems(5) by auto
  show ?case
  proof (cases "isRow opts c \<and> diagnoseRow opts cols c \<noteq> None")
    case False
    then have l: "invalidRows opts cols (filter (isRow opts) (c # rest)) =
        invalidRows opts cols (filter (isRow opts) rest)"
      by (auto simp: invalidRows_Cons)
    have same: "rowRepaired opts cols c c"
      using False by (intro rowRepaired_same) (auto simp: diagnoseRow_None)
    have i2: "set (concat (map keys (dn @ [c]))) \<inter> set (concat (map keys rest)) = {}"
      using dnr cr by auto
    have doc: "document ch = Block tk tt td ((dn @ [c]) @ rest)"
      using Cons.prems(6) by simp
    from Cons.IH[OF tk' i2 dr lt le doc] obtain todo' where
      "document (fold (normalizeRow opts) (invalidRows opts cols (filter (isRow opts) rest)) ch) =
         Block tk tt td ((dn @ [c]) @ todo')"
      and "list_all2 (rowRepaired opts cols) rest todo'"
      by blast
    with same have "document (fold (normalizeRow opts)
          (invalidRows opts cols (filter (isRow opts) (c # rest))) ch) =
          Block tk tt td (dn @ (c # todo')) \<and>
        list_all2 (rowRepaired opts cols) (c # rest) (c # todo')"
      unfolding l by simp
    then show ?thesis by blast
  next
    case True
    then obtain e where e: "diagnoseRow opts cols c = Some e" and row: "isRow opts c"
      by auto
    then have l: "invalidRows opts cols (filter (isRow opts) (c # rest)) =
        e # invalidRows opts cols (filter (isRow opts) rest)"
      by (simp add: invalidRows_Cons)
    have lec: "countCells opts c \<le> cols" using Cons.prems(5) row by simp
    let ?ch = "normalizeRow opts e ch"
    from normalizeRow_doc[OF e row lec dc tk dnc rc Cons.prems(6)] obtain c' where
      doc': "document ?ch = Block tk tt td (dn @ c' # rest)"
      and rep: "rowRepaired opts cols c c'"
      and g: "nextKey ch \<le> nextKey ?ch"
      and ks: "set (keys c') \<subseteq> set (keys c) \<union> {nextKey ch ..< nextKey ?ch}"
      by blast
    have fresh: "{nextKey ch ..< nextKey ?ch} \<inter> set (concat (map keys rest)) = {}"
      using lt by fastforce
    have i2: "set (concat (map keys (dn @ [c']))) \<inter> set (concat (map keys rest)) = {}"
      using dnr cr ks fresh by (simp add: Int_Un_distrib2) blast
    have lt': "\<forall>k\<in>set (concat (map keys rest)). k < nextKey ?ch"
      using lt g by fastforce
    have doc: "document ?ch = Block tk tt td ((dn @ [c']) @ rest)"
      using doc' by simp
    from Cons.IH[OF tk' i2 dr lt' le doc] obtain todo' where
      "document (fold (normalizeRow opts) (invalidRows opts cols (filter (isRow opts) rest)) ?ch) =
         Block tk tt td ((dn @ [c']) @ todo')"
      and "list_all2 (rowRepaired opts cols) rest todo'"
      by blast
    with rep have "document (fold (normalizeRow opts)
          (invalidRows opts cols (filter (isRow opts) (c # rest))) ch) =
          Block tk tt td (dn @ (c' # todo')) \<and>
        list_all2 (rowRepaired opts cols) (c # rest) (c' # todo')"
      unfolding l by simp
    then show ?thesis by blast
  qed
qed

lemma column_count_repair_root:
  assumes "table = Block k ty d ns"
    and "distinct (keys table)"
    and "\<forall>x\<in>set (keys table). x < nextKey ch"
    and "document ch = table"
    and "v = rowsContainRequiredColumns_validate \<or>
         v = makeSchema_rowsContainRequiredColumns_validate"
  shows "let cols = Max (insert 1 (countCells opts ` set (filter (isRow opts) ns)));
             table' = (case v opts table of
                         Inr (Some diag) \<Rightarrow>
                           document (rowsContainRequiredColumns_normalize opts ch table diag)
                       | _ \<Rightarrow> table)
         in (\<forall>r\<in>set (filter (isRow opts) (nodes table')). countCells opts r = cols) \<and>
            list_all2 (rowRepaired opts cols) ns (nodes table')"
proof -
  let ?rows = "filter (isRow opts) ns"
  let ?cols = "tableColumns opts ?rows"
  let ?bad = "invalidRows opts ?cols ?rows"
  let ?table' = "case v opts table of
                   Inr (Some diag) \<Rightarrow>
                     document (rowsContainRequiredColumns_normalize opts ch table diag)
                 | _ \<Rightarrow> table"
  have cols: "Max (insert 1 (countCells opts ` set ?rows)) = ?cols"
    by (simp only: tableColumns_Max)
  have p1: "k \<notin> set (concat (map keys ns))" and p3: "distinct (concat (map keys ns))"
    using assms(2) unfolding assms(1) by simp_all
  have p2: "set (concat (map keys [])) \<inter> set (concat (map keys ns)) = {}" by simp
  have p4: "\<forall>x\<in>set (concat (map keys ns)). x < nextKey ch"
    using assms(3) unfolding assms(1) by simp
  have p5: "\<forall>r\<in>set ns. isRow opts r \<longrightarrow> countCells opts r \<le> ?cols"
    by (simp add: countCells_le_tableColumns)
  have p6: "document ch = Block k ty d ([] @ ns)" using assms(1,4) by simp
  from repair_rows[OF p1 p2 p3 p4 p5 p6] obtain ns' where
    fd: "document (fold (normalizeRow opts) ?bad ch) = Block k ty d ns'"
    and rep: "list_all2 (rowRepaired opts ?cols) ns ns'"
    by auto
  have "list_all2 (rowRepaired opts ?cols) ns (nodes ?table')"
  proof (cases "v opts table = Inr (Some ?bad)")
    case True
    then show ?thesis
      using fd rep by (simp add: rowsContainRequiredColumns_normalize_def)
  next
    case False
    have none: "v opts table = Inr None \<and>
        (\<forall>r\<in>set ?rows. countCells opts r = ?cols)"
      using assms(5)
    proof
      assume v: "v = rowsContainRequiredColumns_validate"
      with False have "?bad = []"
        unfolding assms(1) by (auto simp: Let_def split: if_splits)
      then show ?thesis
        unfolding v assms(1)
        by (simp add: Let_def invalidRows_Nil diagnoseRow_None del: set_filter)
    next
      assume v: "v = makeSchema_rowsContainRequiredColumns_validate"
      with False show ?thesis
        unfolding assms(1) by (auto simp: Let_def list_all_iff split: if_splits)
    qed
    then have "list_all2 (rowRepaired opts ?cols) ns ns"
      by (intro list.rel_refl_strong rowRepaired_same) simp
    with none show ?thesis by (simp add: assms(1))
  qed
  moreover from this have "\<forall>r\<in>set (filter (isRow opts) (nodes ?table')). countCells opts r = ?cols"
    by (auto dest: rowRepaired_count)
  ultimately show ?thesis
    unfolding Let_def cols by blast
qed

section \<open>The order of the operations\<close>

lemma removedKeys_append: "removedKeys (xs @ ys) = removedKeys xs @ removedKeys ys"
  by (induction xs rule: removedKeys.induct) simp_all

lemma insertedKeys_append: "insertedKeys (xs @ ys) = insertedKeys xs @ insertedKeys ys"
  by (induction xs rule: insertedKeys.induct) simp_all

lemma removedKeys_removals [simp]:
  "removedKeys (map (\<lambda>c. RemoveNodeByKey (f c) n) xs) = map f xs"
  by (induction xs) simp_all

lemma insertedKeys_removals [simp]:
  "insertedKeys (map (\<lambda>c. RemoveNodeByKey (f c) n) xs) = []"
  by (induction xs) simp_all

lemma removedKeys_insertions [simp]:
  "removedKeys (map (\<lambda>c. InsertNodeByKey p i c n) xs) = []"
  by (induction xs) simp_all

lemma insertedKeys_insertions [simp]:
  "insertedKeys (map (\<lambda>c. InsertNodeByKey p i c n) xs) = replicate (length xs) p"
  by (induction xs) simp_all

lemma removalsBeforeInsertions_append:
  "removalsBeforeInsertions t (xs @ ys) \<longleftrightarrow>
     removalsBeforeInsertions t xs \<and> removalsBeforeInsertions t ys \<and>
     (\<forall>p\<in>set (insertedKeys xs). \<forall>q\<in>set (removedKeys ys). q \<notin> set (childKeys t p))"
  by (induction t xs rule: removalsBeforeInsertions.induct)
    (auto simp: removedKeys_append list_all_iff)

lemma no_insertions: "insertedKeys xs = [] \<Longrightarrow> removalsBeforeInsertions t xs"
  by (induction t xs rule: removalsBeforeInsertions.induct) simp_all

lemma no_removals: "removedKeys xs = [] \<Longrightarrow> removalsBeforeInsertions t xs"
  by (induction t xs rule: removalsBeforeInsertions.induct) simp_all

lemma operations_fold_remove:
  "operations (fold (\<lambda>child c. removeNodeByKey (key child) nrm c) xs ch) =
     operations ch @ map (\<lambda>c. RemoveNodeByKey (key c) nrm) xs"
  by (induction xs arbitrary: ch) (simp_all add: removeNodeByKey_def)

lemma operations_fold_insert:
  "operations (fold (\<lambda>child c. insertNodeByKey pk i child nrm c) xs ch) =
     operations ch @ map (\<lambda>c. InsertNodeByKey pk i c nrm) xs"
  by (induction xs arbitrary: ch) (simp_all add: insertNodeByKey_def)

lemma operations_fold_insertEmptyCell:
  "\<exists>cells. length cells = length xs \<and>
     operations (fold (\<lambda>_ c. insertEmptyCell opts rk c) xs ch) =
       operations ch @ map (\<lambda>c. InsertNodeByKey rk 0 c False) cells"
proof (induction xs arbitrary: ch)
  case Nil
  then show ?case by simp
next
  case (Cons x xs)
  let ?ch = "insertEmptyCell opts rk ch"
  from Cons[of ?ch] obtain cells where
    l: "length cells = length xs"
    and o: "operations (fold (\<lambda>_ c. insertEmptyCell opts rk c) xs ?ch) =
       operations ?ch @ map (\<lambda>c. InsertNodeByKey rk 0 c False) cells"
    by blast
  let ?cell = "Block (Suc (nextKey ch)) (typeCell opts) [] [Text (nextKey ch) []]"
  have "length (?cell # cells) = length (x # xs)" using l by simp
  moreover have "operations (fold (\<lambda>_ c. insertEmptyCell opts rk c) (x # xs) ch) =
      operations ch @ map (\<lambda>c. InsertNodeByKey rk 0 c False) (?cell # cells)"
    using o by (simp add: insertEmptyCell_simps)
  ultimately show ?case by blast
qed

lemma operations_normalizeRow:
  "\<exists>cells. length cells = nat \<bar>add e\<bar> \<and>
     operations (normalizeRow opts e ch) =
       operations ch @ map (\<lambda>c. RemoveNodeByKey (key c) False) (invalids e) @
         map (\<lambda>c. InsertNodeByKey (key (row e)) 0 c False) cells"
proof -
  let ?ch = "fold (\<lambda>child c. removeNodeByKey (key child) False c) (invalids e) ch"
  from operations_fold_insertEmptyCell[of "[0..<nat \<bar>add e\<bar>]" opts "key (row e)" ?ch]
  obtain cells where "length cells = nat \<bar>add e\<bar>"
    and "operations (normalizeRow opts e ch) =
       operations ?ch @ map (\<lambda>c. InsertNodeByKey (key (row e)) 0 c False) cells"
    by (auto simp: normalizeRow_def)
  then show ?thesis by (auto simp: operations_fold_remove)
qed

lemma childKeys_none: "p \<notin> set (keys n) \<Longrightarrow> childKeys n p = []"
  by (induction n) auto

lemma child_key_in_keys: "c \<in> set (nodes n) \<Longrightarrow> key c \<in> set (keys n)"
  using key_in_keys by (cases n) auto

lemma childKeys_row:
  assumes "distinct (keys (Block k ty d ns))" and "r \<in> set ns"
  shows "set (childKeys (Block k ty d ns) (key r)) \<subseteq> key ` set (nodes r)"
proof -
  from assms(1) have dc: "distinct (concat (map keys ns))" by simp
  from assms have kr: "k \<noteq> key r" using key_in_keys[of r] by auto
  have other: "childKeys n (key r) = []" if "n \<in> set ns" "n \<noteq> r" for n
  proof (rule childKeys_none)
    show "key r \<notin> set (keys n)"
      using distinct_keys_child_key[OF dc assms(2) that(1)] that(2) by blast
  qed
  have self: "set (childKeys r (key r)) \<subseteq> key ` set (nodes r)"
  proof (cases r)
    case (Block rk rt rd cs)
    from dc assms(2) have "distinct (keys r)"
      by (induction ns) auto
    then have "rk \<notin> set (keys c)" if "c \<in> set cs" for c
      using that unfolding Block by auto
    then have "childKeys c rk = []" if "c \<in> set cs" for c
      using that by (intro childKeys_none) simp
    then show ?thesis unfolding Block by auto
  next
    case (Text tk s)
    then show ?thesis by simp
  qed
  have "set (childKeys n (key r)) \<subseteq> key ` set (nodes r)" if "n \<in> set ns" for n
    using other[OF that] self by (cases "n = r") auto
  with kr show ?thesis by auto
qed

lemma distinct_concat_sorted_wrt:
  "distinct (concat (map f xs)) \<Longrightarrow> sorted_wrt (\<lambda>x y. set (f x) \<inter> set (f y) = {}) xs"
  by (induction xs) auto

lemma sorted_wrt_invalidRows:
  assumes "sorted_wrt Q rs"
    and "\<And>r r' e e'. r \<in> set rs \<Longrightarrow> r' \<in> set rs \<Longrightarrow> Q r r' \<Longrightarrow>
           diagnoseRow opts cols r = Some e \<Longrightarrow> diagnoseRow opts cols r' = Some e' \<Longrightarrow> P e e'"
  shows "sorted_wrt P (invalidRows opts cols rs)"
  using assms
proof (induction rs)
  case Nil
  then show ?case by (simp add: invalidRows_def)
next
  case (Cons r rs)
  have ih: "sorted_wrt P (invalidRows opts cols rs)"
    using Cons.prems by (intro Cons.IH) auto
  show ?case
  proof (cases "diagnoseRow opts cols r")
    case None
    with ih show ?thesis by (simp add: invalidRows_Cons)
  next
    case (Some e)
    have "P e e'" if "e' \<in> set (invalidRows opts cols rs)" for e'
    proof -
      from that obtain r' where r': "r' \<in> set rs" "diagnoseRow opts cols r' = Some e'"
        by (auto simp: invalidRows_mem)
      with Cons.prems(1) have "Q r r'" by simp
      with r' Some show ?thesis by (intro Cons.prems(2)[of r r']) auto
    qed
    with ih Some show ?thesis by (simp add: invalidRows_Cons)
  qed
qed

lemma operations_fold_normalizeRow:
  assumes "sorted_wrt (\<lambda>e e'. \<forall>q\<in>key ` set (invalids e').
             q \<notin> set (childKeys t (key (row e)))) es"
  shows "\<exists>ops. operations (fold (normalizeRow opts) es ch) = operations ch @ ops \<and>
           removalsBeforeInsertions t ops \<and>
           set (removedKeys ops) \<subseteq> (\<Union>e\<in>set es. key ` set (invalids e))"
  using assms
proof (induction es arbitrary: ch)
  case Nil
  then show ?case by simp
next
  case (Cons e es)
  let ?ch = "normalizeRow opts e ch"
  from operations_normalizeRow[of e opts ch] obtain cells where
    o1: "operations ?ch =
       operations ch @ map (\<lambda>c. RemoveNodeByKey (key c) False) (invalids e) @
         map (\<lambda>c. InsertNodeByKey (key (row e)) 0 c False) cells"
    by blast
  let ?R = "map (\<lambda>c. RemoveNodeByKey (key c) False) (invalids e)"
  let ?I = "map (\<lambda>c. InsertNodeByKey (key (row e)) 0 c False) cells"
  from Cons.prems have s: "sorted_wrt (\<lambda>e e'. \<forall>q\<in>key ` set (invalids e').
             q \<notin> set (childKeys t (key (row e)))) es"
    and first: "\<forall>e'\<in>set es. \<forall>q\<in>key ` set (invalids e').
             q \<notin> set (childKeys t (key (row e)))"
    by simp_all
  from Cons.IH[OF s, of ?ch] obtain ops where
    o2: "operations (fold (normalizeRow opts) es ?ch) = operations ?ch @ ops"
    and r2: "removalsBeforeInsertions t ops"
    and k2: "set (removedKeys ops) \<subseteq> (\<Union>e\<in>set es. key ` set (invalids e))"
    by blast
  have block: "removalsBeforeInsertions t (?R @ ?I)"
    by (simp add: removalsBeforeInsertions_append no_insertions no_removals)
  have cross: "\<forall>p\<in>set (insertedKeys (?R @ ?I)). \<forall>q\<in>set (removedKeys ops).
      q \<notin> set (childKeys t p)"
  proof (intro ballI)
    fix p q
    assume "p \<in> set (insertedKeys (?R @ ?I))" and q: "q \<in> set (removedKeys ops)"
    then have p: "p = key (row e)" by (simp add: insertedKeys_append)
    from q k2 obtain e' where "e' \<in> set es" "q \<in> key ` set (invalids e')" by blast
    with first show "q \<notin> set (childKeys t p)" unfolding p by blast
  qed
  have "removalsBeforeInsertions t ((?R @ ?I) @ ops)"
    unfolding removalsBeforeInsertions_append[of t "?R @ ?I" ops]
    using block r2 cross by blast
  moreover have "set (removedKeys ((?R @ ?I) @ ops)) \<subseteq>
      (\<Union>e\<in>set (e # es). key ` set (invalids e))"
    using k2 by (auto simp: removedKeys_append)
  moreover have "operations (fold (normalizeRow opts) (e # es) ch) =
      operations ch @ ((?R @ ?I) @ ops)"
    using o1 o2 by simp
  ultimately show ?case by blast
qed

lemma invalidRows_ordered:
  assumes "distinct (keys (Block k ty d ns))"
  shows "sorted_wrt (\<lambda>e e'. \<forall>q\<in>key ` set (invalids e').
             q \<notin> set (childKeys (Block k ty d ns) (key (row e))))
           (invalidRows opts cols (filter (isRow opts) ns))"
proof (rule sorted_wrt_invalidRows[where Q = "\<lambda>x y. set (keys x) \<inter> set (keys y) = {}"])
  from assms have "distinct (concat (map keys ns))" by simp
  then have "sorted_wrt (\<lambda>x y. set (keys x) \<inter> set (keys y) = {}) ns"
    by (rule distinct_concat_sorted_wrt)
  then show "sorted_wrt (\<lambda>x y. set (keys x) \<inter> set (keys y) = {}) (filter (isRow opts) ns)"
    by (rule sorted_wrt_filter)
next
  fix r r' e e'
  assume r: "r \<in> set (filter (isRow opts) ns)" and r': "r' \<in> set (filter (isRow opts) ns)"
    and dis: "set (keys r) \<inter> set (keys r') = {}"
    and e: "diagnoseRow opts cols r = Some e" and e': "diagnoseRow opts cols r' = Some e'"
  from diagnoseRow_Some[OF e] have re: "row e = r" by simp
  from diagnoseRow_Some[OF e'] have inv: "set (invalids e') \<subseteq> set (nodes r')" by auto
  from r have "r \<in> set ns" by simp
  from childKeys_row[OF assms this]
  have sub: "set (childKeys (Block k ty d ns) (key r)) \<subseteq> set (keys r)"
    using child_key_in_keys[of _ r] by auto
  show "\<forall>q\<in>key ` set (invalids e'). q \<notin> set (childKeys (Block k ty d ns) (key (row e)))"
  proof
    fix q
    assume "q \<in> key ` set (invalids e')"
    with inv have "q \<in> set (keys r')" using child_key_in_keys[of _ r'] by auto
    with dis sub show "q \<notin> set (childKeys (Block k ty d ns) (key (row e)))"
      unfolding re by blast
  qed
qed

text \<open>
  C7. Started on an empty log, the \<open>normalize\<close> of every rule emits no removal of a child
  of a node after an insertion into that node. The rows-only rule, on any node and any
  diagnosis (that of a table without rows included, where the removals and the insertion
  have the same parent), logs the removals of all its invalid children and then the
  insertions. The column-count rule, on the diagnosis of a table with distinct keys from
  the \<open>validate\<close> of either file, keeps the order for every row; the operations of one
  entry are the removals of the row's invalid children followed by \<open>|add|\<close> insertions
  into that row. The alignment rule emits one \<open>setNodeByKey\<close>.
\<close>

theorem removals_before_insertions:
  assumes "operations ch = []"
  shows "operations (tablesContainOnlyRows_normalize opts ch node tdiag) =
           map (\<lambda>c. RemoveNodeByKey (key c) False) (table_invalids tdiag) @
           map (\<lambda>c. InsertNodeByKey (key node) 0 c True) (table_add tdiag) \<and>
         removalsBeforeInsertions node
           (operations (tablesContainOnlyRows_normalize opts ch node tdiag)) \<and>
         (table = Block k ty d ns \<and> distinct (keys table) \<and>
          (v = rowsContainRequiredColumns_validate \<or>
           v = makeSchema_rowsContainRequiredColumns_validate) \<and>
          v opts table = Inr (Some rows) \<longrightarrow>
            removalsBeforeInsertions table
              (operations (rowsContainRequiredColumns_normalize opts ch table rows))) \<and>
         (\<exists>cells. length cells = nat \<bar>add e\<bar> \<and>
            operations (normalizeRow opts e ch) =
              map (\<lambda>c. RemoveNodeByKey (key c) False) (invalids e) @
              map (\<lambda>c. InsertNodeByKey (key (row e)) 0 c False) cells) \<and>
         removalsBeforeInsertions node
           (operations (tableContainAlignData_normalize opts ch node adiag))"
proof (intro conjI impI)
  show "operations (tablesContainOnlyRows_normalize opts ch node tdiag) =
      map (\<lambda>c. RemoveNodeByKey (key c) False) (table_invalids tdiag) @
      map (\<lambda>c. InsertNodeByKey (key node) 0 c True) (table_add tdiag)"
    by (simp add: tablesContainOnlyRows_normalize_def operations_fold_insert
        operations_fold_remove assms)
next
  show "removalsBeforeInsertions node
      (operations (tablesContainOnlyRows_normalize opts ch node tdiag))"
    by (simp add: tablesContainOnlyRows_normalize_def operations_fold_insert
        operations_fold_remove assms removalsBeforeInsertions_append
        no_insertions no_removals)
next
  assume h: "table = Block k ty d ns \<and> distinct (keys table) \<and>
      (v = rowsContainRequiredColumns_validate \<or>
       v = makeSchema_rowsContainRequiredColumns_validate) \<and>
      v opts table = Inr (Some rows)"
  then have t: "table = Block k ty d ns" by blast
  let ?rows = "filter (isRow opts) ns"
  have rows: "rows = invalidRows opts (tableColumns opts ?rows) ?rows"
    using h unfolding t by (auto simp: Let_def split: if_splits)
  from h have "distinct (keys table)" by blast
  then have d: "distinct (keys (Block k ty d ns))" unfolding t .
  note ord = invalidRows_ordered[OF d, of opts "tableColumns opts ?rows"]
  from operations_fold_normalizeRow[OF ord, of opts ch]
  obtain ops where
    "operations (fold (normalizeRow opts) rows ch) = operations ch @ ops"
    and "removalsBeforeInsertions table ops"
    unfolding rows t by blast
  then show "removalsBeforeInsertions table
      (operations (rowsContainRequiredColumns_normalize opts ch table rows))"
    by (simp add: rowsContainRequiredColumns_normalize_def assms)
next
  show "\<exists>cells. length cells = nat \<bar>add e\<bar> \<and>
      operations (normalizeRow opts e ch) =
        map (\<lambda>c. RemoveNodeByKey (key c) False) (invalids e) @
        map (\<lambda>c. InsertNodeByKey (key (row e)) 0 c False) cells"
    using operations_normalizeRow[of e opts ch] by (simp add: assms)
next
  show "removalsBeforeInsertions node
      (operations (tableContainAlignData_normalize opts ch node adiag))"
    by (simp add: tableContainAlignData_normalize_def setNodeByKey_def assms)
qed

theorem removals_before_insertions_witness:
  "operations (change0 tableNoRows 106) = [] \<and>
   fst (tablesContainOnlyRows_validate opts0 103 tableNoRows) = Inr (Some diagNoRows103) \<and>
   operations (tablesContainOnlyRows_normalize opts0 (change0 tableNoRows 106) tableNoRows
     diagNoRows103) =
     [RemoveNodeByKey 1 False, RemoveNodeByKey 3 False,
      InsertNodeByKey 0 0 emptyRow103 True] \<and>
   removalsBeforeInsertions tableNoRows
     (operations (tablesContainOnlyRows_normalize opts0 (change0 tableNoRows 106) tableNoRows
        diagNoRows103)) \<and>
   \<not> removalsBeforeInsertions tableNoRows
     [InsertNodeByKey 0 0 emptyRow103 True, RemoveNodeByKey 1 False,
      RemoveNodeByKey 3 False] \<and>
   distinct (keys tableMixed) \<and>
   rowsContainRequiredColumns_validate opts0 tableMixed = Inr (Some diagMixed) \<and>
   operations (rowsContainRequiredColumns_normalize opts0 (change0 tableMixed 11) tableMixed
     diagMixed) =
     [RemoveNodeByKey 4 False,
      InsertNodeByKey 1 0 (Block 12 ''table_cell'' [] [Text 11 '''']) False] \<and>
   removalsBeforeInsertions tableMixed
     (operations (rowsContainRequiredColumns_normalize opts0 (change0 tableMixed 11) tableMixed
        diagMixed))"
proof -
  have g1: "operations (change0 tableNoRows 106) = []"
    by (simp add: change0_def)
  have v1: "fst (tablesContainOnlyRows_validate opts0 103 tableNoRows) =
      Inr (Some diagNoRows103)"
    by (simp add: opts0_def paragraph0_def tableNoRows_def diagNoRows103_def emptyRow103_def
        isRow_def makeEmptyRow_def makeEmptyCell_def Let_def)
  note r1 = removals_before_insertions[OF g1, of opts0 tableNoRows diagNoRows103]
  from r1 have o1: "operations (tablesContainOnlyRows_normalize opts0
      (change0 tableNoRows 106) tableNoRows diagNoRows103) =
     [RemoveNodeByKey 1 False, RemoveNodeByKey 3 False,
      InsertNodeByKey 0 0 emptyRow103 True]"
    by (simp add: diagNoRows103_def paragraph0_def tableNoRows_def)
  from r1 have b1: "removalsBeforeInsertions tableNoRows
     (operations (tablesContainOnlyRows_normalize opts0 (change0 tableNoRows 106) tableNoRows
        diagNoRows103))"
    by blast
  have n1: "\<not> removalsBeforeInsertions tableNoRows
     [InsertNodeByKey 0 0 emptyRow103 True, RemoveNodeByKey 1 False,
      RemoveNodeByKey 3 False]"
    by (simp add: tableNoRows_def paragraph0_def)
  have h1: "tableMixed = Block 0 ''table'' [] (nodes tableMixed)"
    by (simp add: tableMixed_def)
  have h2: "distinct (keys tableMixed)"
    by (simp add: tableMixed_def cell0_def paragraph0_def)
  have h3: "operations (change0 tableMixed 11) = []"
    by (simp add: change0_def)
  have hv: "rowsContainRequiredColumns_validate opts0 tableMixed = Inr (Some diagMixed)"
    by (simp add: opts0_def cell0_def paragraph0_def tableMixed_def diagMixed_def Let_def
        isRow_def isCell_def tableColumns_def countCells_def invalidRows_def diagnoseRow_def)
  have ops: "operations (rowsContainRequiredColumns_normalize opts0 (change0 tableMixed 11)
      tableMixed diagMixed) =
     [RemoveNodeByKey 4 False,
      InsertNodeByKey 1 0 (Block 12 ''table_cell'' [] [Text 11 '''']) False]"
    by (simp add: rowsContainRequiredColumns_normalize_def normalizeRow_def diagMixed_def
        removeNodeByKey_def insertEmptyCell_def makeEmptyCell_def insertNodeByKey_def
        change0_def opts0_def paragraph0_def)
  note r2 = removals_before_insertions[OF h3,
      where table = tableMixed and k = 0 and ty = "''table''" and d = "[]"
        and ns = "nodes tableMixed" and v = rowsContainRequiredColumns_validate
        and opts = opts0 and rows = diagMixed]
  from r2 h1 h2 hv have b2: "removalsBeforeInsertions tableMixed
     (operations (rowsContainRequiredColumns_normalize opts0 (change0 tableMixed 11) tableMixed
        diagMixed))"
    by blast
  from g1 v1 o1 b1 n1 h2 hv ops b2 show ?thesis by blast
qed

section \<open>Repairing a table inside a document\<close>

lemma key_insert_key [simp]: "key (insert_key pk i c n) = key n"
  by (cases n) simp_all

lemma key_replace_key: "key t = tk \<Longrightarrow> key (replace_key tk t n) = key n"
  by (cases n) simp_all

lemma outer_keys_subset: "set (outer_keys tk n) \<subseteq> set (keys n)"
  by (induction n) auto

lemma replace_key_id: "tk \<notin> set (keys n) \<Longrightarrow> replace_key tk t n = n"
  by (induction n) (auto simp: map_idI)

lemma self_in_subtrees: "n \<in> set (subtrees n)"
  by (cases n) simp_all

lemma subtrees_keys: "t \<in> set (subtrees n) \<Longrightarrow> set (keys t) \<subseteq> set (keys n)"
  by (induction n) auto

lemma replace_key_same:
  "distinct (keys n) \<Longrightarrow> t \<in> set (subtrees n) \<Longrightarrow> replace_key (key t) t n = n"
proof (induction n)
  case (Block k ty d ns)
  show ?case
  proof (cases "t = Block k ty d ns")
    case True
    then show ?thesis by simp
  next
    case False
    with Block.prems(2) obtain c where c: "c \<in> set ns" "t \<in> set (subtrees c)" by auto
    from Block.prems(1) have dc: "distinct (concat (map keys ns))" and k: "k \<notin> set (concat (map keys ns))"
      by simp_all
    have kt: "key t \<in> set (keys c)"
      using subtrees_keys[OF c(2)] key_in_keys[of t] by blast
    with k c(1) have ne: "k \<noteq> key t" by auto
    have "replace_key (key t) t x = x" if x: "x \<in> set ns" for x
    proof (cases "x = c")
      case True
      from dc x have "distinct (keys x)" by (induction ns) auto
      with Block.IH[OF x] c(2) True show ?thesis by simp
    next
      case False
      from distinct_concat_disjoint[OF dc x c(1) False] kt
      have "key t \<notin> set (keys x)" by blast
      then show ?thesis by (rule replace_key_id)
    qed
    with ne show ?thesis by (simp add: map_idI)
  qed
next
  case (Text k s)
  then show ?case by simp
qed

lemma outer_keys_disjoint:
  "distinct (keys n) \<Longrightarrow> t \<in> set (subtrees n) \<Longrightarrow>
     set (outer_keys (key t) n) \<inter> set (keys t) = {}"
proof (induction n)
  case (Block k ty d ns)
  show ?case
  proof (cases "t = Block k ty d ns")
    case True
    then show ?thesis by simp
  next
    case False
    with Block.prems(2) obtain c where c: "c \<in> set ns" "t \<in> set (subtrees c)" by auto
    from Block.prems(1) have dc: "distinct (concat (map keys ns))" and k: "k \<notin> set (concat (map keys ns))"
      by simp_all
    have tc: "set (keys t) \<subseteq> set (keys c)" by (rule subtrees_keys[OF c(2)])
    with k c(1) have kn: "k \<notin> set (keys t)" by auto
    have "set (outer_keys (key t) x) \<inter> set (keys t) = {}" if x: "x \<in> set ns" for x
    proof (cases "x = c")
      case True
      from dc x have "distinct (keys x)" by (induction ns) auto
      with Block.IH[OF x] c(2) True show ?thesis by simp
    next
      case False
      from distinct_concat_disjoint[OF dc x c(1) False] tc outer_keys_subset[of "key t" x]
      show ?thesis by blast
    qed
    with kn show ?thesis by auto
  qed
next
  case (Text k s)
  then show ?case by simp
qed

lemma remove_key_replace_key:
  assumes "key s = tk" and "k \<noteq> tk"
  shows "k \<notin> set (outer_keys tk n) \<Longrightarrow>
     remove_key k (replace_key tk s n) = replace_key tk (remove_key k s) n"
proof (induction n)
  case (Block kk ty d ns)
  show ?case
  proof (cases "kk = tk")
    case True
    then show ?thesis by simp
  next
    case False
    have keep: "key (replace_key tk s x) \<noteq> k" if x: "x \<in> set ns" for x
    proof (cases "key x = tk")
      case True
      then have "replace_key tk s x = s" by (cases x) simp_all
      with assms show ?thesis by simp
    next
      case nk: False
      then have "key x \<in> set (outer_keys tk x)" by (cases x) simp_all
      with Block.prems False x have "key x \<noteq> k" by auto
      with assms(1) show ?thesis by (simp add: key_replace_key)
    qed
    then have f: "filter (\<lambda>n. key n \<noteq> k) (map (replace_key tk s) ns) = map (replace_key tk s) ns"
      by (simp add: filter_id_conv)
    have "remove_key k (replace_key tk s x) = replace_key tk (remove_key k s) x"
      if x: "x \<in> set ns" for x
      using Block.IH[OF x] Block.prems False x by auto
    then show ?thesis using False by (simp add: f)
  qed
next
  case (Text kk s')
  then show ?case by simp
qed

lemma insert_key_replace_key:
  assumes "key s = tk"
  shows "pk \<notin> set (outer_keys tk n) \<Longrightarrow>
     insert_key pk i c (replace_key tk s n) = replace_key tk (insert_key pk i c s) n"
proof (induction n)
  case (Block kk ty d ns)
  show ?case
  proof (cases "kk = tk")
    case True
    then show ?thesis by simp
  next
    case False
    have "insert_key pk i c (replace_key tk s x) = replace_key tk (insert_key pk i c s) x"
      if x: "x \<in> set ns" for x
      using Block.IH[OF x] Block.prems False x by auto
    moreover from Block.prems False have "kk \<noteq> pk" by auto
    ultimately show ?thesis using False by simp
  qed
next
  case (Text kk s')
  then show ?case by simp
qed

lemma sim_removeNodeByKey:
  assumes "sim tk doc c1 c2" and "k \<notin> set (outer_keys tk doc)" and "k \<noteq> tk"
  shows "sim tk doc (removeNodeByKey k nrm c1) (removeNodeByKey k nrm c2)"
  using assms remove_key_replace_key[of "document c2" tk k doc]
  by (simp add: sim_def removeNodeByKey_def)

lemma sim_insertNodeByKey:
  assumes "sim tk doc c1 c2" and "pk \<notin> set (outer_keys tk doc)"
  shows "sim tk doc (insertNodeByKey pk i c nrm c1) (insertNodeByKey pk i c nrm c2)"
  using assms insert_key_replace_key[of "document c2" tk pk doc i c]
  by (simp add: sim_def insertNodeByKey_def)

lemma sim_nextKey:
  "sim tk doc c1 c2 \<Longrightarrow> sim tk doc (c1\<lparr>nextKey := g\<rparr>) (c2\<lparr>nextKey := g\<rparr>)"
  by (simp add: sim_def)

lemma sim_insertEmptyCell:
  assumes "sim tk doc c1 c2" and "pk \<notin> set (outer_keys tk doc)"
  shows "sim tk doc (insertEmptyCell opts pk c1) (insertEmptyCell opts pk c2)"
proof -
  from assms(1) have g: "nextKey c1 = nextKey c2" by (simp add: sim_def)
  show ?thesis
    unfolding insertEmptyCell_def makeEmptyCell_def g
    by (simp add: sim_insertNodeByKey[OF sim_nextKey[OF assms(1)] assms(2)])
qed

lemma sim_fold:
  assumes "\<And>x a b. x \<in> set xs \<Longrightarrow> sim tk doc a b \<Longrightarrow> sim tk doc (f x a) (f x b)"
    and "sim tk doc c1 c2"
  shows "sim tk doc (fold f xs c1) (fold f xs c2)"
  using assms by (induction xs arbitrary: c1 c2) simp_all

lemma sim_normalizeRow:
  assumes "sim tk doc c1 c2"
    and "key (row e) \<notin> set (outer_keys tk doc)"
    and "\<forall>c\<in>set (invalids e). key c \<notin> set (outer_keys tk doc) \<and> key c \<noteq> tk"
  shows "sim tk doc (normalizeRow opts e c1) (normalizeRow opts e c2)"
  unfolding normalizeRow_def
proof (rule sim_fold)
  show "sim tk doc (fold (\<lambda>child c. removeNodeByKey (key child) False c) (invalids e) c1)
      (fold (\<lambda>child c. removeNodeByKey (key child) False c) (invalids e) c2)"
    using assms(3) by (intro sim_fold[OF _ assms(1)] sim_removeNodeByKey) auto
next
  fix x a b
  assume "sim tk doc a b"
  then show "sim tk doc (insertEmptyCell opts (key (row e)) a)
      (insertEmptyCell opts (key (row e)) b)"
    using assms(2) by (rule sim_insertEmptyCell)
qed

lemma sim_start:
  assumes "distinct (keys doc)" and "t \<in> set (subtrees doc)" and "document ch = doc"
  shows "sim (key t) doc ch (ch\<lparr>document := t\<rparr>)"
  using replace_key_same[OF assms(1,2)] assms(3) by (simp add: sim_def)

lemma distinct_concat_member:
  "distinct (concat (map f xs)) \<Longrightarrow> x \<in> set xs \<Longrightarrow> distinct (f x)"
  by (induction xs) auto

lemma subtree_distinct:
  "distinct (keys n) \<Longrightarrow> t \<in> set (subtrees n) \<Longrightarrow> distinct (keys t)"
proof (induction n)
  case (Block k ty d ns)
  show ?case
  proof (cases "t = Block k ty d ns")
    case True
    with Block.prems(1) show ?thesis by simp
  next
    case False
    with Block.prems(2) obtain c where c: "c \<in> set ns" "t \<in> set (subtrees c)" by auto
    from Block.prems(1) have "distinct (concat (map keys ns))" by simp
    from distinct_concat_member[OF this c(1)] Block.IH[OF c(1)] c(2) show ?thesis by simp
  qed
next
  case (Text k s)
  then show ?case by simp
qed

lemma entry_keys_local:
  assumes d: "distinct (keys doc)" and t: "Block k ty d ns \<in> set (subtrees doc)"
    and e: "e \<in> set (invalidRows opts cols (filter (isRow opts) ns))"
  shows "key (row e) \<notin> set (outer_keys k doc) \<and>
         (\<forall>c\<in>set (invalids e). key c \<notin> set (outer_keys k doc) \<and> key c \<noteq> k)"
proof -
  let ?t = "Block k ty d ns"
  from outer_keys_disjoint[OF d t] have dis: "set (outer_keys k doc) \<inter> set (keys ?t) = {}"
    by simp
  have dt: "distinct (keys ?t)" by (rule subtree_distinct[OF d t])
  from e obtain r where r: "r \<in> set ns" "diagnoseRow opts cols r = Some e"
    by (auto simp: invalidRows_mem)
  from diagnoseRow_Some[OF r(2)] have re: "row e = r"
    and inv: "set (invalids e) \<subseteq> set (nodes r)" by auto
  have rk: "set (keys r) \<subseteq> set (concat (map keys ns))" using r(1) by auto
  have "key (row e) \<notin> set (outer_keys k doc)"
    using dis rk key_in_keys[of r] unfolding re by auto
  moreover have "key c \<notin> set (outer_keys k doc) \<and> key c \<noteq> k" if "c \<in> set (invalids e)" for c
  proof -
    from that inv have "key c \<in> set (keys r)" by (auto intro: child_key_in_keys)
    with rk have "key c \<in> set (concat (map keys ns))" by blast
    with dis dt show ?thesis by auto
  qed
  ultimately show ?thesis by blast
qed

lemma sim_rowsContainRequiredColumns_normalize:
  assumes "distinct (keys doc)" and "Block k ty d ns \<in> set (subtrees doc)"
    and "document ch = doc"
  shows "document (fold (normalizeRow opts)
           (invalidRows opts cols (filter (isRow opts) ns)) ch) =
         replace_key k
           (document (fold (normalizeRow opts)
              (invalidRows opts cols (filter (isRow opts) ns))
              (ch\<lparr>document := Block k ty d ns\<rparr>))) doc"
proof -
  have "sim k doc
      (fold (normalizeRow opts) (invalidRows opts cols (filter (isRow opts) ns)) ch)
      (fold (normalizeRow opts) (invalidRows opts cols (filter (isRow opts) ns))
         (ch\<lparr>document := Block k ty d ns\<rparr>))"
  proof (rule sim_fold)
    show "sim k doc ch (ch\<lparr>document := Block k ty d ns\<rparr>)"
      using sim_start[OF assms] by simp
  next
    fix e a b
    assume "e \<in> set (invalidRows opts cols (filter (isRow opts) ns))" and "sim k doc a b"
    with entry_keys_local[OF assms(1,2)] show "sim k doc (normalizeRow opts e a) (normalizeRow opts e b)"
      by (intro sim_normalizeRow) blast+
  qed
  then show ?thesis by (simp add: sim_def)
qed

text \<open>
  C1. Let the rows of a table have cell counts \<open>c\<^sub>1 \<dots> c\<^sub>n\<close>. After the column-count rule
  has diagnosed the table and its \<open>normalize\<close> has run on that diagnosis (or when the
  diagnosis is \<open>null\<close> and nothing runs), the document is the old one with a new table in
  the place of the old; every row of the new table has exactly
  \<open>max(1, max(c\<^sub>1 \<dots> c\<^sub>n))\<close> cells, every child of the table is at its old place, and
  in each row the old cells are all there, in their old order, behind the new empty
  cells. This holds for the \<open>validate\<close> of either file. The table is a node of the
  change's document, whose keys are distinct and below the key counter.
\<close>

theorem column_count_repair:
  assumes "table = Block k ty d ns"
    and "table \<in> set (subtrees doc)"
    and "distinct (keys doc)"
    and "\<forall>x\<in>set (keys doc). x < nextKey ch"
    and "document ch = doc"
    and "v = rowsContainRequiredColumns_validate \<or>
         v = makeSchema_rowsContainRequiredColumns_validate"
  shows "\<exists>table'.
           (case v opts table of
              Inr (Some diag) \<Rightarrow>
                document (rowsContainRequiredColumns_normalize opts ch table diag)
            | _ \<Rightarrow> doc) = replace_key k table' doc \<and>
           (let cols = Max (insert 1 (countCells opts ` set (filter (isRow opts) ns)))
            in (\<forall>r\<in>set (filter (isRow opts) (nodes table')). countCells opts r = cols) \<and>
               list_all2 (rowRepaired opts cols) ns (nodes table'))"
proof -
  let ?ch = "ch\<lparr>document := table\<rparr>"
  let ?rows = "filter (isRow opts) ns"
  let ?bad = "invalidRows opts (tableColumns opts ?rows) ?rows"
  let ?table' = "case v opts table of
      Inr (Some diag) \<Rightarrow> document (rowsContainRequiredColumns_normalize opts ?ch table diag)
    | _ \<Rightarrow> table"
  have dt: "distinct (keys table)" by (rule subtree_distinct[OF assms(3,2)])
  have fr: "\<forall>x\<in>set (keys table). x < nextKey ?ch"
    using assms(4) subtrees_keys[OF assms(2)] by auto
  have dc: "document ?ch = table" by simp
  note root = column_count_repair_root[OF assms(1) dt fr dc assms(6), of opts]
  have v: "v opts table = Inr None \<or> v opts table = Inr (Some ?bad)"
    using assms(6) unfolding assms(1) by (auto simp: Let_def split: if_splits)
  have eq: "(case v opts table of
              Inr (Some diag) \<Rightarrow>
                document (rowsContainRequiredColumns_normalize opts ch table diag)
            | _ \<Rightarrow> doc) = replace_key k ?table' doc"
    using v
  proof
    assume n: "v opts table = Inr None"
    from replace_key_same[OF assms(3,2)] have "replace_key k table doc = doc"
      unfolding assms(1) by simp
    then show ?thesis by (simp add: n)
  next
    assume s: "v opts table = Inr (Some ?bad)"
    have sub: "Block k ty d ns \<in> set (subtrees doc)" using assms(1,2) by simp
    from sim_rowsContainRequiredColumns_normalize[OF assms(3) sub assms(5),
        of opts "tableColumns opts ?rows"]
    have "document (rowsContainRequiredColumns_normalize opts ch table ?bad) =
        replace_key k (document (rowsContainRequiredColumns_normalize opts ?ch table ?bad)) doc"
      unfolding rowsContainRequiredColumns_normalize_def assms(1) .
    then show ?thesis by (simp add: s)
  qed
  from root have r': "(\<forall>r\<in>set (filter (isRow opts) (nodes ?table')).
        countCells opts r = Max (insert 1 (countCells opts ` set ?rows))) \<and>
      list_all2 (rowRepaired opts (Max (insert 1 (countCells opts ` set ?rows)))) ns
        (nodes ?table')"
    unfolding Let_def .
  show ?thesis
    unfolding Let_def using eq r' by (intro exI[of _ ?table']) blast
qed

theorem column_count_repair_witness:
  "distinct (keys doc231) \<and>
   rowsContainRequiredColumns_validate opts0 table231 = Inr (Some diag231) \<and>
   (\<exists>table'.
      document (rowsContainRequiredColumns_normalize opts0 (change0 doc231 103) table231
        diag231) = replace_key 0 table' doc231 \<and>
      list_all2 (rowRepaired opts0 3) (nodes table231) (nodes table'))"
proof -
  define ns0 where "ns0 = nodes table231"
  have h1: "table231 = Block 0 ''table'' [] ns0"
    by (simp add: ns0_def table231_def)
  have h2: "table231 \<in> set (subtrees doc231)"
    by (simp add: doc231_def paragraph0_def self_in_subtrees)
  have h3: "distinct (keys doc231)"
    by (simp add: doc231_def table231_def cell0_def paragraph0_def)
  have h4: "\<forall>x\<in>set (keys doc231). x < nextKey (change0 doc231 103)"
    by (simp add: doc231_def table231_def cell0_def paragraph0_def change0_def)
  have h5: "document (change0 doc231 103) = doc231"
    by (simp add: change0_def)
  have hv: "rowsContainRequiredColumns_validate opts0 table231 = Inr (Some diag231)"
    by (simp add: opts0_def cell0_def table231_def diag231_def Let_def isRow_def isCell_def tableColumns_def countCells_def
        invalidRows_def diagnoseRow_def)
  have cols: "Max (insert 1 (countCells opts0 ` set (filter (isRow opts0) ns0))) = 3"
    by (simp add: ns0_def opts0_def cell0_def table231_def isRow_def isCell_def countCells_def)
  note r = column_count_repair[OF h1 h2 h3 h4 h5 disjI1[OF refl], of opts0]
  from r have "\<exists>table'.
      document (rowsContainRequiredColumns_normalize opts0 (change0 doc231 103) table231
        diag231) = replace_key 0 table' doc231 \<and>
      list_all2 (rowRepaired opts0 3) ns0 (nodes table')"
    unfolding Let_def cols hv sum.case option.case by blast
  with h3 hv show ?thesis unfolding ns0_def by blast
qed

lemma distinct_child_keys:
  "distinct (concat (map keys ns)) \<Longrightarrow> distinct (map key ns)"
proof (induction ns)
  case Nil
  then show ?case by simp
next
  case (Cons n ns)
  have "key n \<notin> key ` set ns"
  proof
    assume "key n \<in> key ` set ns"
    then obtain m where m: "m \<in> set ns" "key m = key n" by auto
    from Cons.prems m(1) have "set (keys n) \<inter> set (keys m) = {}" by auto
    with key_in_keys[of n] key_in_keys[of m] m(2) show False by auto
  qed
  with Cons show ?case by simp
qed

lemma sim_tablesContainOnlyRows_normalize:
  assumes d: "distinct (keys doc)" and t: "Block k ty d ns \<in> set (subtrees doc)"
    and doc: "document ch = doc"
    and inv: "set (table_invalids diag) \<subseteq> set ns"
  shows "document (tablesContainOnlyRows_normalize opts ch (Block k ty d ns) diag) =
         replace_key k
           (document (tablesContainOnlyRows_normalize opts
              (ch\<lparr>document := Block k ty d ns\<rparr>) (Block k ty d ns) diag)) doc"
proof -
  let ?t = "Block k ty d ns"
  from outer_keys_disjoint[OF d t] have dis: "set (outer_keys k doc) \<inter> set (keys ?t) = {}"
    by simp
  have dt: "distinct (keys ?t)" by (rule subtree_distinct[OF d t])
  have k: "k \<notin> set (outer_keys k doc)" using dis by auto
  have c: "key c \<notin> set (outer_keys k doc) \<and> key c \<noteq> k" if "c \<in> set (table_invalids diag)" for c
  proof -
    from that inv have "c \<in> set ns" by blast
    then have "key c \<in> set (concat (map keys ns))" using key_in_keys[of c] by auto
    with dis dt show ?thesis by auto
  qed
  have s0: "sim k doc ch (ch\<lparr>document := ?t\<rparr>)"
    using sim_start[OF d t doc] by simp
  have s1: "sim k doc
      (fold (\<lambda>child c. removeNodeByKey (key child) False c) (table_invalids diag) ch)
      (fold (\<lambda>child c. removeNodeByKey (key child) False c) (table_invalids diag)
         (ch\<lparr>document := ?t\<rparr>))"
    using c by (intro sim_fold[OF _ s0] sim_removeNodeByKey) auto
  have "sim k doc (tablesContainOnlyRows_normalize opts ch ?t diag)
      (tablesContainOnlyRows_normalize opts (ch\<lparr>document := ?t\<rparr>) ?t diag)"
    unfolding tablesContainOnlyRows_normalize_def
    using k by (intro sim_fold[OF _ s1] sim_insertNodeByKey) auto
  then show ?thesis by (simp add: sim_def)
qed

text \<open>
  C4. The diagnosis of the rows-only rule lists for removal exactly the children that are
  not rows, so never a row; it schedules an insertion only when the table has no row at
  all (the table without children included), and then exactly one empty row of one empty
  cell; after the repair, or when no repair is needed, the table has at least one row.
  The table is a node of the change's document, whose keys are distinct.
\<close>

theorem rows_only_repair:
  assumes "table = Block k ty d ns"
    and "table \<in> set (subtrees doc)"
    and "distinct (keys doc)"
    and "document ch = doc"
  shows "case fst (tablesContainOnlyRows_validate opts g table) of
           Inl e \<Rightarrow> False
         | Inr None \<Rightarrow> filter (isRow opts) ns \<noteq> [] \<and> list_all (isRow opts) ns
         | Inr (Some diag) \<Rightarrow>
             table_invalids diag = filter (\<lambda>n. \<not> isRow opts n) ns \<and>
             list_all (\<lambda>n. \<not> isRow opts n) (table_invalids diag) \<and>
             table_add diag =
               (if filter (isRow opts) ns = [] then [fst (makeEmptyRow opts g)] else []) \<and>
             fst (makeEmptyRow opts g) =
               Block (g + 2) (typeRow opts) []
                 [Block (Suc g) (typeCell opts) [] [Text g '''']] \<and>
             (\<exists>table'.
                document (tablesContainOnlyRows_normalize opts ch table diag) =
                  replace_key k table' doc \<and>
                filter (isRow opts) (nodes table') \<noteq> [])"
proof -
  have dt: "distinct (keys table)" by (rule subtree_distinct[OF assms(3,2)])
  then have dk: "distinct (map key ns)"
    unfolding assms(1) by (simp add: distinct_child_keys)
  have sub: "Block k ty d ns \<in> set (subtrees doc)" using assms(1,2) by simp
  note root = rows_only_repair_root[OF assms(1) dk, of opts g ch]
  show ?thesis
  proof (cases "fst (tablesContainOnlyRows_validate opts g table)")
    case (Inl e)
    with root show ?thesis by simp
  next
    case (Inr r)
    show ?thesis
    proof (cases r)
      case None
      with root Inr show ?thesis by simp
    next
      case (Some diag)
      from root have c: "table_invalids diag = filter (\<lambda>n. \<not> isRow opts n) ns"
        "list_all (\<lambda>n. \<not> isRow opts n) (table_invalids diag)"
        "table_add diag =
           (if filter (isRow opts) ns = [] then [fst (makeEmptyRow opts g)] else [])"
        "fst (makeEmptyRow opts g) =
           Block (g + 2) (typeRow opts) [] [Block (Suc g) (typeCell opts) [] [Text g '''']]"
        "filter (isRow opts)
           (nodes (document (tablesContainOnlyRows_normalize opts
              (ch\<lparr>document := table\<rparr>) table diag))) \<noteq> []"
        unfolding Inr Some sum.case option.case by blast+
      from c(1) have inv: "set (table_invalids diag) \<subseteq> set ns" by auto
      from sim_tablesContainOnlyRows_normalize[OF assms(3) sub assms(4) inv, of opts]
      have "document (tablesContainOnlyRows_normalize opts ch table diag) =
          replace_key k (document (tablesContainOnlyRows_normalize opts
              (ch\<lparr>document := table\<rparr>) table diag)) doc"
        unfolding assms(1) .
      with c(5) have "\<exists>table'.
          document (tablesContainOnlyRows_normalize opts ch table diag) =
            replace_key k table' doc \<and>
          filter (isRow opts) (nodes table') \<noteq> []"
        by blast
      with c(1-4) show ?thesis unfolding Inr Some sum.case option.case by blast
    qed
  qed
qed

theorem rows_only_repair_witness:
  "distinct (keys docNoRows) \<and>
   fst (tablesContainOnlyRows_validate opts0 103 tableNoRows) = Inr (Some diagNoRows103) \<and>
   (\<exists>table'.
      document (tablesContainOnlyRows_normalize opts0 (change0 docNoRows 106) tableNoRows
        diagNoRows103) = replace_key 0 table' docNoRows \<and>
      filter (isRow opts0) (nodes table') \<noteq> [])"
proof -
  have h1: "tableNoRows = Block 0 ''table'' [] [paragraph0 1, paragraph0 3]"
    by (simp add: tableNoRows_def)
  have h2: "tableNoRows \<in> set (subtrees docNoRows)"
    by (simp add: docNoRows_def paragraph0_def self_in_subtrees)
  have h3: "distinct (keys docNoRows)"
    by (simp add: docNoRows_def tableNoRows_def paragraph0_def)
  have h4: "document (change0 docNoRows 106) = docNoRows"
    by (simp add: change0_def)
  have v: "fst (tablesContainOnlyRows_validate opts0 103 tableNoRows) =
      Inr (Some diagNoRows103)"
    by (simp add: opts0_def paragraph0_def tableNoRows_def diagNoRows103_def emptyRow103_def isRow_def makeEmptyRow_def
        makeEmptyCell_def Let_def)
  note r = rows_only_repair[OF h1 h2 h3 h4, of opts0 103]
  from r have "\<exists>table'.
      document (tablesContainOnlyRows_normalize opts0 (change0 docNoRows 106) tableNoRows
        diagNoRows103) = replace_key 0 table' docNoRows \<and>
      filter (isRow opts0) (nodes table') \<noteq> []"
    unfolding v by simp
  with h3 v show ?thesis by blast
qed

end
